theory Spec2Isabelle
  imports Main
begin

section \<open>Data model of the library server (src/server.js)\<close>

text \<open>
  The server keeps three JavaScript \<^verbatim>\<open>Map\<close>s: \<^verbatim>\<open>members\<close>, \<^verbatim>\<open>books\<close> and
  \<^verbatim>\<open>borrowings\<close> (a fourth, \<^verbatim>\<open>reservations\<close>, is never read or written).
  A \<^verbatim>\<open>Map\<close> iterates in insertion order, so each one is an association list
  with \<^verbatim>\<open>set\<close>, \<^verbatim>\<open>delete\<close>, \<^verbatim>\<open>get\<close> and \<^verbatim>\<open>has\<close> written out.

  A borrowing is one JavaScript object that is reachable from two places: the
  \<^verbatim>\<open>borrowings\<close> map and the \<^verbatim>\<open>history\<close> array of the member. It is mutated in
  place by the return handler. The model therefore has an explicit object store
  \<open>heap\<close> (a list; the address of an object is its index, a new object takes
  the next index), and both the ledger and the histories hold addresses.

  Times are integers: milliseconds since the epoch, the time value of a
  \<^verbatim>\<open>Date\<close>. \<^verbatim>\<open>toISOString\<close> and \<^verbatim>\<open>new Date(string)\<close> are inverse to each other on
  time values, so the ISO strings of the source are represented by the time
  values they denote. Identifiers are integers, as in the specification; the
  fields \<^verbatim>\<open>member_id\<close> of a member and \<^verbatim>\<open>book_id\<close> of a book are \<open>m_member_id\<close>
  and \<open>b_book_id\<close> here, since a borrowing has fields of the same names.
\<close>

datatype bstatus = Active | Returned

record borrowing =
  transaction_id :: int
  member_id :: int
  member_name :: string
  book_id :: int
  book_title :: string
  borrowed_at :: int
  due_date :: int
  status :: bstatus
  returned_at :: "int option"

record member =
  m_member_id :: int
  name :: string
  age :: int
  has_borrowed :: bool
  history :: "nat list"

record book =
  b_book_id :: int
  title :: string
  author :: string
  isbn :: string
  is_available :: bool

record state =
  members :: "(int \<times> member) list"
  books :: "(int \<times> book) list"
  borrowings :: "(int \<times> nat) list"
  heap :: "borrowing list"

definition init_state :: state where
  "init_state = \<lparr>members = [], books = [], borrowings = [], heap = []\<rparr>"

subsection \<open>The operations of a JavaScript Map\<close>

text \<open>\<^verbatim>\<open>Map.prototype.set\<close>: an existing key keeps its position, a new key goes last.\<close>

fun map_set :: "'k \<Rightarrow> 'v \<Rightarrow> ('k \<times> 'v) list \<Rightarrow> ('k \<times> 'v) list" where
  "map_set k v [] = [(k, v)]"
| "map_set k v (kv # kvs) = (if fst kv = k then (k, v) # kvs else kv # map_set k v kvs)"

definition map_delete :: "'k \<Rightarrow> ('k \<times> 'v) list \<Rightarrow> ('k \<times> 'v) list" where
  "map_delete k kvs = filter (\<lambda>kv. fst kv \<noteq> k) kvs"

definition map_get :: "('k \<times> 'v) list \<Rightarrow> 'k \<Rightarrow> 'v option" where
  "map_get kvs k = map_of kvs k"

definition map_has :: "('k \<times> 'v) list \<Rightarrow> 'k \<Rightarrow> bool" where
  "map_has kvs k = (map_get kvs k \<noteq> None)"

definition map_values :: "('k \<times> 'v) list \<Rightarrow> 'v list" where
  "map_values kvs = map snd kvs"

text \<open>\<^verbatim>\<open>[...borrowings.values()]\<close>: the ledger's objects, in insertion order.\<close>

definition ledger_values :: "state \<Rightarrow> borrowing list" where
  "ledger_values s = map (\<lambda>a. heap s ! a) (map_values (borrowings s))"

subsection \<open>Dates\<close>

text \<open>
  \<^verbatim>\<open>getDate\<close> and \<^verbatim>\<open>setDate\<close> work on local time. ECMA-262 defines local time
  through the implementation-defined offset \<^verbatim>\<open>LocalTZA(t, isUTC)\<close> of the host's
  time zone, which is a parameter here. With \<open>t = LocalTime(now)\<close>,
  \<^verbatim>\<open>dueDate.setDate(now.getDate() + 14)\<close> builds the local time
  \<^verbatim>\<open>MakeDate(MakeDay(YearFromTime(t), MonthFromTime(t), DateFromTime(t) + 14), TimeWithinDay(t))\<close>,
  which is \<open>t + 14 * msPerDay\<close>, and stores its \<^verbatim>\<open>UTC\<close> value. The clock and
  the due date are taken to lie within the range of time values (8.64e15 ms on
  either side of the epoch), where \<^verbatim>\<open>TimeClip\<close> is the identity.
\<close>

type_synonym zone = "int \<Rightarrow> bool \<Rightarrow> int"

definition msPerDay :: int where
  "msPerDay = 1000 * 60 * 60 * 24"

definition LocalTime :: "zone \<Rightarrow> int \<Rightarrow> int" where
  "LocalTime tza t = t + tza t True"

definition UTC_time :: "zone \<Rightarrow> int \<Rightarrow> int" where
  "UTC_time tza t = t - tza t False"

definition dueDate :: "zone \<Rightarrow> int \<Rightarrow> int" where
  "dueDate tza now = UTC_time tza (LocalTime tza now + 14 * msPerDay)"

definition utc_zone :: zone where
  "utc_zone = (\<lambda>t isUTC. 0)"

section \<open>The request handlers\<close>

text \<open>
  A handler that answers with an error status is \<open>Inl\<close> of the error; the
  constructors name the message. \<open>TypeError\<close> is the uncaught exception of
  reading a property of \<^verbatim>\<open>undefined\<close>.
\<close>

datatype error =
    FieldsRequired
  | AlreadyExists
  | InvalidAge
  | NotFound_member
  | NotFound_book
  | Conflict_already_borrowed
  | Conflict_unavailable
  | Invalid_no_active_borrowing
  | MemberHasBorrowing
  | BookIsBorrowed
  | TypeError

fun status_code :: "error \<Rightarrow> nat" where
  "status_code NotFound_member = 404"
| "status_code NotFound_book = 404"
| "status_code TypeError = 500"
| "status_code _ = 400"

text \<open>POST /api/members (lines 17-31). An absent \<^verbatim>\<open>age\<close> is \<open>None\<close>.\<close>

definition create_member :: "int \<Rightarrow> string \<Rightarrow> int option \<Rightarrow> state \<Rightarrow> error + state" where
  "create_member mid nm ag s =
    (if mid = 0 \<or> nm = [] \<or> ag = None then Inl FieldsRequired
     else if map_has (members s) mid then Inl AlreadyExists
     else if the ag < 12 then Inl InvalidAge
     else Inr (s\<lparr>members := map_set mid
            \<lparr>m_member_id = mid, name = nm, age = the ag, has_borrowed = False, history = []\<rparr>
            (members s)\<rparr>))"

text \<open>PUT /api/members/:member_id (lines 58-72). Absent fields are \<open>None\<close>;
  \<^verbatim>\<open>if (name)\<close> and \<^verbatim>\<open>if (age)\<close> test truthiness.\<close>

definition update_member :: "int \<Rightarrow> string option \<Rightarrow> int option \<Rightarrow> state \<Rightarrow> error + state" where
  "update_member mid nm ag s =
    (case map_get (members s) mid of
       None \<Rightarrow> Inl NotFound_member
     | Some m \<Rightarrow>
        if ag \<noteq> None \<and> the ag < 12 then Inl InvalidAge
        else
          let m1 = (if nm \<noteq> None \<and> the nm \<noteq> [] then m\<lparr>name := the nm\<rparr> else m);
              m2 = (if ag \<noteq> None \<and> the ag \<noteq> 0 then m1\<lparr>age := the ag\<rparr> else m1)
          in Inr (s\<lparr>members := map_set mid m2 (members s)\<rparr>))"

text \<open>DELETE /api/members/:member_id (lines 170-177).\<close>

definition delete_member :: "int \<Rightarrow> state \<Rightarrow> error + state" where
  "delete_member mid s =
    (case map_get (members s) mid of
       None \<Rightarrow> Inl NotFound_member
     | Some m \<Rightarrow>
        if has_borrowed m then Inl MemberHasBorrowing
        else Inr (s\<lparr>members := map_delete mid (members s)\<rparr>))"

text \<open>POST /api/books (lines 202-209).\<close>

definition create_book :: "int \<Rightarrow> string \<Rightarrow> string \<Rightarrow> string \<Rightarrow> state \<Rightarrow> error + state" where
  "create_book bid ti au isb s =
    (if bid = 0 \<or> ti = [] \<or> au = [] \<or> isb = [] then Inl FieldsRequired
     else if map_has (books s) bid then Inl AlreadyExists
     else Inr (s\<lparr>books := map_set bid
            \<lparr>b_book_id = bid, title = ti, author = au, isbn = isb, is_available = True\<rparr>
            (books s)\<rparr>))"

text \<open>DELETE /api/books/:book_id (lines 223-230).\<close>

definition delete_book :: "int \<Rightarrow> state \<Rightarrow> error + state" where
  "delete_book bid s =
    (if \<not> map_has (books s) bid then Inl NotFound_book
     else if list_ex (\<lambda>b. book_id b = bid \<and> status b = Active) (ledger_values s)
       then Inl BookIsBorrowed
     else Inr (s\<lparr>books := map_delete bid (books s)\<rparr>))"

text \<open>
  POST /api/borrow (lines 77-109). The result is the response and the state
  after the request. The new object is stored at the next free address; the
  ledger and the member's history both receive that address, and the member
  and book objects are updated where they sit in their maps.
\<close>

definition borrow :: "zone \<Rightarrow> int \<Rightarrow> int \<Rightarrow> int \<Rightarrow> state \<Rightarrow> (error + borrowing) \<times> state" where
  "borrow tza now mid bid s =
    (if \<not> map_has (members s) mid then (Inl NotFound_member, s)
     else if \<not> map_has (books s) bid then (Inl NotFound_book, s)
     else
       let m = the (map_get (members s) mid);
           bk = the (map_get (books s) bid)
       in
         if has_borrowed m then (Inl Conflict_already_borrowed, s)
         else if \<not> is_available bk then (Inl Conflict_unavailable, s)
         else
           let tid = int (length (borrowings s)) + 1;
               b = \<lparr>transaction_id = tid, member_id = mid, member_name = name m,
                    book_id = bid, book_title = title bk, borrowed_at = now,
                    due_date = dueDate tza now, status = Active, returned_at = None\<rparr>;
               a = length (heap s)
           in (Inr b,
               s\<lparr>borrowings := map_set tid a (borrowings s),
                 heap := heap s @ [b],
                 members := map_set mid (m\<lparr>has_borrowed := True, history := history m @ [a]\<rparr>) (members s),
                 books := map_set bid (bk\<lparr>is_available := False\<rparr>) (books s)\<rparr>))"

text \<open>
  POST /api/return (lines 114-129). The found object and the member are
  written before \<^verbatim>\<open>books.get(book_id)\<close> is read; if that is \<^verbatim>\<open>undefined\<close>, the
  assignment to \<^verbatim>\<open>book.is_available\<close> throws after those writes.
\<close>

definition active_match :: "int \<Rightarrow> int \<Rightarrow> borrowing \<Rightarrow> bool" where
  "active_match mid bid b \<longleftrightarrow> member_id b = mid \<and> book_id b = bid \<and> status b = Active"

definition return_book :: "int \<Rightarrow> int \<Rightarrow> int \<Rightarrow> state \<Rightarrow> (error + borrowing) \<times> state" where
  "return_book now mid bid s =
    (case map_get (members s) mid of
       None \<Rightarrow> (Inl NotFound_member, s)
     | Some m \<Rightarrow>
        (case find (\<lambda>a. active_match mid bid (heap s ! a)) (map_values (borrowings s)) of
           None \<Rightarrow> (Inl Invalid_no_active_borrowing, s)
         | Some a \<Rightarrow>
            let b = (heap s ! a)\<lparr>status := Returned, returned_at := Some now\<rparr>;
                s1 = s\<lparr>heap := (heap s)[a := b],
                       members := map_set mid (m\<lparr>has_borrowed := False\<rparr>) (members s)\<rparr>
            in (case map_get (books s) bid of
                  None \<Rightarrow> (Inl TypeError, s1)
                | Some bk \<Rightarrow>
                    (Inr b, s1\<lparr>books := map_set bid (bk\<lparr>is_available := True\<rparr>) (books s)\<rparr>))))"

text \<open>GET /api/members/:member_id/history (lines 152-165).\<close>

record history_view =
  hv_transaction_id :: int
  hv_book_id :: int
  hv_book_title :: string
  hv_borrowed_at :: int
  hv_returned_at :: "int option"
  hv_status :: bstatus

definition history_entry :: "borrowing \<Rightarrow> history_view" where
  "history_entry b =
    \<lparr>hv_transaction_id = transaction_id b, hv_book_id = book_id b,
     hv_book_title = book_title b, hv_borrowed_at = borrowed_at b,
     hv_returned_at = returned_at b, hv_status = status b\<rparr>"

definition get_history :: "int \<Rightarrow> state \<Rightarrow> error + (int \<times> string \<times> history_view list)" where
  "get_history mid s =
    (case map_get (members s) mid of
       None \<Rightarrow> Inl NotFound_member
     | Some m \<Rightarrow> Inr (mid, name m, map (\<lambda>a. history_entry (heap s ! a)) (history m)))"

text \<open>GET /api/overdue (lines 182-197). \<^verbatim>\<open>Math.floor\<close> of the quotient of two
  integers is integer division rounding down.\<close>

record overdue_view =
  ov_transaction_id :: int
  ov_member_id :: int
  ov_member_name :: string
  ov_book_id :: int
  ov_book_title :: string
  ov_borrowed_at :: int
  ov_due_date :: int
  days_overdue :: int

definition overdue_entry :: "int \<Rightarrow> borrowing \<Rightarrow> overdue_view" where
  "overdue_entry now b =
    \<lparr>ov_transaction_id = transaction_id b, ov_member_id = member_id b,
     ov_member_name = member_name b, ov_book_id = book_id b,
     ov_book_title = book_title b, ov_borrowed_at = borrowed_at b,
     ov_due_date = due_date b,
     days_overdue = (now - due_date b) div (1000 * 60 * 60 * 24)\<rparr>"

definition overdue :: "int \<Rightarrow> state \<Rightarrow> overdue_view list" where
  "overdue now s =
    map (overdue_entry now)
      (filter (\<lambda>b. status b = Active \<and> due_date b < now) (ledger_values s))"

section \<open>Runs of the server\<close>

text \<open>
  The server handles one request at a time, starting from empty maps. An event
  is a request together with the reading of the clock while it is handled.
\<close>

datatype request =
    CreateMember int string "int option"
  | UpdateMember int "string option" "int option"
  | DeleteMember int
  | CreateBook int string string string
  | DeleteBook int
  | Borrow int int
  | Return int int

definition keep :: "state \<Rightarrow> error + state \<Rightarrow> state" where
  "keep s r = (case r of Inl e \<Rightarrow> s | Inr s' \<Rightarrow> s')"

fun handle :: "zone \<Rightarrow> int \<Rightarrow> request \<Rightarrow> state \<Rightarrow> state" where
  "handle tza now (CreateMember mid nm ag) s = keep s (create_member mid nm ag s)"
| "handle tza now (UpdateMember mid nm ag) s = keep s (update_member mid nm ag s)"
| "handle tza now (DeleteMember mid) s = keep s (delete_member mid s)"
| "handle tza now (CreateBook bid ti au isb) s = keep s (create_book bid ti au isb s)"
| "handle tza now (DeleteBook bid) s = keep s (delete_book bid s)"
| "handle tza now (Borrow mid bid) s = snd (borrow tza now mid bid s)"
| "handle tza now (Return mid bid) s = snd (return_book now mid bid s)"

fun run_from :: "zone \<Rightarrow> state \<Rightarrow> (int \<times> request) list \<Rightarrow> state" where
  "run_from tza s [] = s"
| "run_from tza s (ev # evs) = run_from tza (handle tza (fst ev) (snd ev) s) evs"

definition run :: "zone \<Rightarrow> (int \<times> request) list \<Rightarrow> state" where
  "run tza evs = run_from tza init_state evs"

text \<open>The transaction ids handed out by the successful borrow requests of a
  run, in the order of the requests.\<close>

fun assigned_ids :: "zone \<Rightarrow> state \<Rightarrow> (int \<times> request) list \<Rightarrow> int list" where
  "assigned_ids tza s [] = []"
| "assigned_ids tza s (ev # evs) =
    (case snd ev of
       Borrow mid bid \<Rightarrow>
         (case fst (borrow tza (fst ev) mid bid s) of
            Inl e \<Rightarrow> []
          | Inr b \<Rightarrow> [transaction_id b])
     | _ \<Rightarrow> [])
    @ assigned_ids tza (handle tza (fst ev) (snd ev) s) evs"

section \<open>Counting active borrowings\<close>

definition active_of_member :: "state \<Rightarrow> int \<Rightarrow> nat" where
  "active_of_member s k =
    length (filter (\<lambda>b. member_id b = k \<and> status b = Active) (ledger_values s))"

definition active_of_book :: "state \<Rightarrow> int \<Rightarrow> nat" where
  "active_of_book s k =
    length (filter (\<lambda>b. book_id b = k \<and> status b = Active) (ledger_values s))"

section \<open>Sample zones and runs\<close>

text \<open>
  The zone of New York in 2024: UTC-5 until 10 March 07:00 UTC, UTC-4 until
  3 November 06:00 UTC, UTC-5 afterwards. For a local time (\<open>isUTC\<close> false)
  that is skipped or repeated, the offset before the transition applies.
\<close>

definition new_york_2024 :: zone where
  "new_york_2024 t isUTC =
    (if isUTC then
       (if t < 1710054000000 then - 18000000
        else if t < 1730613600000 then - 14400000 else - 18000000)
     else
       (if t < 1710054000000 - 14400000 then - 18000000
        else if t < 1730613600000 - 14400000 then - 14400000 else - 18000000))"

text \<open>One member and one book; then the member borrows the book at time \<open>t\<close>.\<close>

definition setup_events :: "(int \<times> request) list" where
  "setup_events =
    [(0, CreateMember 1 ''Ann'' (Some 30)),
     (0, CreateBook 101 ''Emma'' ''Austen'' ''9780141439587'')]"

definition borrow_events :: "int \<Rightarrow> (int \<times> request) list" where
  "borrow_events t = setup_events @ [(t, Borrow 1 101)]"

definition ann :: member where
  "ann = \<lparr>m_member_id = 1, name = ''Ann'', age = 30, has_borrowed = False, history = []\<rparr>"

definition emma :: book where
  "emma = \<lparr>b_book_id = 101, title = ''Emma'', author = ''Austen'',
           isbn = ''9780141439587'', is_available = True\<rparr>"

definition loan :: "int \<Rightarrow> int \<Rightarrow> borrowing" where
  "loan t d = \<lparr>transaction_id = 1, member_id = 1, member_name = ''Ann'', book_id = 101,
              book_title = ''Emma'', borrowed_at = t, due_date = d, status = Active,
              returned_at = None\<rparr>"

definition setup_state :: state where
  "setup_state = \<lparr>members = [(1, ann)], books = [(101, emma)], borrowings = [], heap = []\<rparr>"

definition borrowed_state :: "int \<Rightarrow> int \<Rightarrow> state" where
  "borrowed_state t d =
    \<lparr>members = [(1, ann\<lparr>has_borrowed := True, history := [0]\<rparr>)],
     books = [(101, emma\<lparr>is_available := False\<rparr>)],
     borrowings = [(1, 0)],
     heap = [loan t d]\<rparr>"

text \<open>A second member joins after the first has borrowed the book.\<close>

definition bob :: member where
  "bob = \<lparr>m_member_id = 2, name = ''Bob'', age = 41, has_borrowed = False, history = []\<rparr>"

definition bob_joins :: "int \<Rightarrow> (int \<times> request) list" where
  "bob_joins t = [(t, CreateMember 2 ''Bob'' (Some 41))]"

definition second_member_events :: "int \<Rightarrow> (int \<times> request) list" where
  "second_member_events t = borrow_events t @ bob_joins t"

definition second_member_state :: "int \<Rightarrow> int \<Rightarrow> state" where
  "second_member_state t d =
    \<lparr>members = [(1, ann\<lparr>has_borrowed := True, history := [0]\<rparr>), (2, bob)],
     books = [(101, emma\<lparr>is_available := False\<rparr>)],
     borrowings = [(1, 0)],
     heap = [loan t d]\<rparr>"

text \<open>The first member has brought the book back at time \<open>r\<close>.\<close>

definition returned_state :: "int \<Rightarrow> int \<Rightarrow> int \<Rightarrow> state" where
  "returned_state t d r =
    \<lparr>members = [(1, ann\<lparr>has_borrowed := False, history := [0]\<rparr>)],
     books = [(101, emma\<lparr>is_available := True\<rparr>)],
     borrowings = [(1, 0)],
     heap = [(loan t d)\<lparr>status := Returned, returned_at := Some r\<rparr>]\<rparr>"

text \<open>The first member brings the book back and borrows it again.\<close>

definition reborrow_events :: "(int \<times> request) list" where
  "reborrow_events = borrow_events 5 @ [(7, Return 1 101), (9, Borrow 1 101)]"

section \<open>The invariant of the server\<close>

text \<open>
  In every state the server can reach, the ledger holds the objects of the store
  in the order of their creation under the keys 1, 2, ..., the keys of each map
  are distinct, the two flags count the active borrowings, and every history
  entry is an address of the store.
\<close>

definition ledger_ok :: "state \<Rightarrow> bool" where
  "ledger_ok s \<longleftrightarrow>
     borrowings s = map (\<lambda>i. (int i + 1, i)) [0..<length (heap s)]
     \<and> map transaction_id (heap s) = map (\<lambda>i. int i + 1) [0..<length (heap s)]"

definition keys_ok :: "state \<Rightarrow> bool" where
  "keys_ok s \<longleftrightarrow> distinct (map fst (members s)) \<and> distinct (map fst (books s))"

definition flags_ok :: "state \<Rightarrow> bool" where
  "flags_ok s \<longleftrightarrow>
     (\<forall>k. active_of_member s k =
        (case map_get (members s) k of None \<Rightarrow> 0 | Some m \<Rightarrow> if has_borrowed m then 1 else 0))
     \<and> (\<forall>k. active_of_book s k =
        (case map_get (books s) k of None \<Rightarrow> 0 | Some bk \<Rightarrow> if is_available bk then 0 else 1))"

definition history_ok :: "state \<Rightarrow> bool" where
  "history_ok s \<longleftrightarrow>
     (\<forall>k m. map_get (members s) k = Some m \<longrightarrow> (\<forall>a \<in> set (history m). a < length (heap s)))"

definition server_inv :: "state \<Rightarrow> bool" where
  "server_inv s \<longleftrightarrow> ledger_ok s \<and> keys_ok s \<and> flags_ok s \<and> history_ok s"

text \<open>
  While a member holds a book: the member's record keeps its flag and its
  history \<open>h\<close>, and the object \<open>b\<close> at address \<open>a\<close> stays as it is.
\<close>

definition on_loan :: "int \<Rightarrow> nat list \<Rightarrow> nat \<Rightarrow> borrowing \<Rightarrow> state \<Rightarrow> bool" where
  "on_loan mid h a b s \<longleftrightarrow>
     server_inv s
     \<and> (\<exists>m. map_get (members s) mid = Some m \<and> has_borrowed m \<and> history m = h)
     \<and> a < length (heap s) \<and> heap s ! a = b
     \<and> member_id b = mid \<and> status b = Active"

section \<open>Facts about maps and counting\<close>

lemma map_get_map_set:
  "map_get (map_set k v kvs) k' = (if k' = k then Some v else map_get kvs k')"
  by (induction kvs) (auto simp: map_get_def)

lemma map_get_map_delete:
  "map_get (map_delete k kvs) k' = (if k' = k then None else map_get kvs k')"
  by (induction kvs) (auto simp: map_get_def map_delete_def)

lemma map_set_fresh:
  "k \<notin> fst ` set kvs \<Longrightarrow> map_set k v kvs = kvs @ [(k, v)]"
  by (induction kvs) auto

lemma keys_map_set:
  "map fst (map_set k v kvs) = (if k \<in> fst ` set kvs then map fst kvs else map fst kvs @ [k])"
  by (induction kvs) auto

lemma distinct_map_set:
  "distinct (map fst kvs) \<Longrightarrow> distinct (map fst (map_set k v kvs))"
  by (simp add: keys_map_set)

lemma distinct_map_delete:
  "distinct (map fst kvs) \<Longrightarrow> distinct (map fst (map_delete k kvs))"
  by (simp add: map_delete_def distinct_map_filter)

lemma map_get_Some_iff:
  "distinct (map fst kvs) \<Longrightarrow> map_get kvs k = Some v \<longleftrightarrow> (k, v) \<in> set kvs"
  by (simp add: map_get_def)

lemma map_has_iff: "map_has kvs k \<longleftrightarrow> k \<in> fst ` set kvs"
  by (simp add: map_has_def map_get_def map_of_eq_None_iff)

lemma count_update:
  "a < length xs \<Longrightarrow> P (xs ! a) \<Longrightarrow> \<not> P y \<Longrightarrow>
   Suc (length (filter P (xs[a := y]))) = length (filter P xs)"
  by (induction xs arbitrary: a) (auto simp: nth_Cons' split: nat.splits if_splits)

lemma count_update_same:
  "a < length xs \<Longrightarrow> P (xs ! a) = P y \<Longrightarrow>
   length (filter P (xs[a := y])) = length (filter P xs)"
  by (induction xs arbitrary: a) (auto simp: nth_Cons' split: nat.splits if_splits)

lemma count_pos: "a < length xs \<Longrightarrow> P (xs ! a) \<Longrightarrow> 0 < length (filter P xs)"
  by (metis filter_empty_conv length_greater_0_conv nth_mem)

lemma set_update_cases:
  "x \<in> set (xs[a := y]) \<Longrightarrow> x \<in> set xs \<or> (a < length xs \<and> x = y)"
  by (cases "a < length xs")
    (auto dest: set_update_subset_insert[THEN subsetD] simp: list_update_beyond)

lemma run_from_append: "run_from tza s (xs @ ys) = run_from tza (run_from tza s xs) ys"
  by (induction xs arbitrary: s) simp_all

section \<open>The invariant holds in every reachable state\<close>

lemma ledger_values_heap: "ledger_ok s \<Longrightarrow> ledger_values s = heap s"
proof -
  assume "ledger_ok s"
  then have "map_values (borrowings s) = [0..<length (heap s)]"
    by (simp add: ledger_ok_def map_values_def comp_def)
  then show ?thesis
    by (simp add: ledger_values_def map_nth)
qed

lemma ledger_length: "ledger_ok s \<Longrightarrow> length (borrowings s) = length (heap s)"
  by (simp add: ledger_ok_def)

lemma ledger_addresses: "ledger_ok s \<Longrightarrow> map_values (borrowings s) = [0..<length (heap s)]"
  by (simp add: ledger_ok_def map_values_def comp_def)

lemma ledger_fresh_key:
  "ledger_ok s \<Longrightarrow> int (length (heap s)) + 1 \<notin> fst ` set (borrowings s)"
  by (auto simp: ledger_ok_def)

lemma ledger_lookup:
  assumes "ledger_ok s" and "a < length (heap s)"
  shows "map_get (borrowings s) (int a + 1) = Some a"
proof -
  let ?kvs = "map (\<lambda>i. (int i + 1, i)) [0..<length (heap s)]"
  have "distinct (map fst ?kvs)" by (simp add: comp_def distinct_map inj_on_def)
  moreover have "(int a + 1, a) \<in> set ?kvs" using assms(2) by simp
  ultimately have "map_of ?kvs (int a + 1) = Some a" by (rule map_of_is_SomeI)
  then show ?thesis using assms(1) by (simp add: map_get_def ledger_ok_def)
qed

lemma inv_init: "server_inv init_state"
  by (simp add: server_inv_def ledger_ok_def keys_ok_def flags_ok_def history_ok_def init_state_def
      active_of_member_def active_of_book_def ledger_values_def map_values_def map_get_def)

lemma borrow_Inl: "fst (borrow tza now mid bid s) = Inl e \<Longrightarrow> snd (borrow tza now mid bid s) = s"
  by (simp add: borrow_def Let_def split: if_splits)

lemma borrow_Inr:
  assumes "fst (borrow tza now mid bid s) = Inr b"
  obtains m bk where
    "map_get (members s) mid = Some m" "map_get (books s) bid = Some bk"
    "\<not> has_borrowed m" "is_available bk"
    "b = \<lparr>transaction_id = int (length (borrowings s)) + 1, member_id = mid,
          member_name = name m, book_id = bid, book_title = title bk, borrowed_at = now,
          due_date = dueDate tza now, status = Active, returned_at = None\<rparr>"
    "snd (borrow tza now mid bid s) =
       s\<lparr>borrowings := map_set (int (length (borrowings s)) + 1) (length (heap s)) (borrowings s),
         heap := heap s @ [b],
         members := map_set mid (m\<lparr>has_borrowed := True, history := history m @ [length (heap s)]\<rparr>) (members s),
         books := map_set bid (bk\<lparr>is_available := False\<rparr>) (books s)\<rparr>"
  using assms
  by (auto simp: borrow_def Let_def map_has_def split: if_splits)

lemma inv_borrow:
  assumes "server_inv s"
  shows "server_inv (snd (borrow tza now mid bid s))"
proof (cases "fst (borrow tza now mid bid s)")
  case (Inl e)
  then show ?thesis using assms by (simp add: borrow_Inl)
next
  case (Inr b)
  then obtain m bk where
    m: "map_get (members s) mid = Some m" and bk: "map_get (books s) bid = Some bk" and
    free: "\<not> has_borrowed m" and avail: "is_available bk" and
    b: "b = \<lparr>transaction_id = int (length (borrowings s)) + 1, member_id = mid,
          member_name = name m, book_id = bid, book_title = title bk, borrowed_at = now,
          due_date = dueDate tza now, status = Active, returned_at = None\<rparr>" and
    s': "snd (borrow tza now mid bid s) =
       s\<lparr>borrowings := map_set (int (length (borrowings s)) + 1) (length (heap s)) (borrowings s),
         heap := heap s @ [b],
         members := map_set mid (m\<lparr>has_borrowed := True, history := history m @ [length (heap s)]\<rparr>) (members s),
         books := map_set bid (bk\<lparr>is_available := False\<rparr>) (books s)\<rparr>"
    by (rule borrow_Inr)
  let ?s' = "snd (borrow tza now mid bid s)"
  from assms have lo: "ledger_ok s" and ko: "keys_ok s" and fo: "flags_ok s" and ho: "history_ok s"
    by (simp_all add: server_inv_def)
  have len: "length (borrowings s) = length (heap s)" using lo by (rule ledger_length)
  have "map_set (int (length (heap s)) + 1) (length (heap s)) (borrowings s)
        = borrowings s @ [(int (length (heap s)) + 1, length (heap s))]"
    using lo by (intro map_set_fresh ledger_fresh_key)
  then have lo': "ledger_ok ?s'"
    using lo by (simp add: s' len ledger_ok_def b)
  have ko': "keys_ok ?s'"
    using ko by (simp add: s' keys_ok_def distinct_map_set)
  have vals: "ledger_values ?s' = heap s @ [b]"
    using ledger_values_heap[OF lo'] by (simp add: s')
  have vals0: "ledger_values s = heap s" using lo by (rule ledger_values_heap)
  have fm: "active_of_member ?s' k =
      (case map_get (members ?s') k of None \<Rightarrow> 0 | Some m \<Rightarrow> if has_borrowed m then 1 else 0)" for k
  proof -
    have "active_of_member ?s' k = active_of_member s k + (if k = mid then 1 else 0)"
      by (simp add: active_of_member_def vals vals0 b)
    moreover have "active_of_member s k =
      (case map_get (members s) k of None \<Rightarrow> 0 | Some m \<Rightarrow> if has_borrowed m then 1 else 0)"
      using fo by (simp add: flags_ok_def)
    ultimately show ?thesis
      using m free by (simp add: s' map_get_map_set)
  qed
  have fb: "active_of_book ?s' k =
      (case map_get (books ?s') k of None \<Rightarrow> 0 | Some bk \<Rightarrow> if is_available bk then 0 else 1)" for k
  proof -
    have "active_of_book ?s' k = active_of_book s k + (if k = bid then 1 else 0)"
      by (simp add: active_of_book_def vals vals0 b)
    moreover have "active_of_book s k =
      (case map_get (books s) k of None \<Rightarrow> 0 | Some bk \<Rightarrow> if is_available bk then 0 else 1)"
      using fo by (simp add: flags_ok_def)
    ultimately show ?thesis
      using bk avail by (simp add: s' map_get_map_set)
  qed
  have fo': "flags_ok ?s'"
    unfolding flags_ok_def using fm fb by blast
  have ho': "history_ok ?s'"
    using ho m by (auto simp: s' history_ok_def map_get_map_set less_Suc_eq split: if_splits)
  show ?thesis using lo' ko' fo' ho' by (simp add: server_inv_def)
qed

lemma find_ledger:
  assumes "ledger_ok s"
    and "find (\<lambda>a. P (heap s ! a)) (map_values (borrowings s)) = Some a"
  shows "a < length (heap s) \<and> P (heap s ! a) \<and> (\<forall>j<a. \<not> P (heap s ! j))"
  using assms(2) unfolding ledger_addresses[OF assms(1)] find_Some_iff
  by auto

lemma find_ledger_None:
  assumes "ledger_ok s"
  shows "find (\<lambda>a. P (heap s ! a)) (map_values (borrowings s)) = None
         \<longleftrightarrow> \<not> list_ex P (ledger_values s)"
  unfolding ledger_addresses[OF assms] ledger_values_heap[OF assms] find_None_iff list_ex_iff
  by (metis atLeastLessThan_iff in_set_conv_nth set_upt zero_le)

lemma active_book_exists:
  assumes "server_inv s" and "a < length (heap s)"
    and "book_id (heap s ! a) = bid" and "status (heap s ! a) = Active"
  obtains bk where "map_get (books s) bid = Some bk" "\<not> is_available bk"
proof -
  from assms(1) have lo: "ledger_ok s" and fo: "flags_ok s" by (simp_all add: server_inv_def)
  have "0 < length (filter (\<lambda>b. book_id b = bid \<and> status b = Active) (heap s))"
    using assms(2-4) by (intro count_pos[of a]) simp_all
  then have "0 < active_of_book s bid"
    by (simp add: active_of_book_def ledger_values_heap[OF lo])
  moreover have "active_of_book s bid =
      (case map_get (books s) bid of None \<Rightarrow> 0 | Some bk \<Rightarrow> if is_available bk then 0 else 1)"
    using fo by (simp add: flags_ok_def)
  ultimately show ?thesis
    using that by (auto split: option.splits if_splits)
qed

lemma active_member_flag:
  assumes "server_inv s" and "a < length (heap s)"
    and "member_id (heap s ! a) = mid" and "status (heap s ! a) = Active"
  obtains m where "map_get (members s) mid = Some m" "has_borrowed m"
proof -
  from assms(1) have lo: "ledger_ok s" and fo: "flags_ok s" by (simp_all add: server_inv_def)
  have "0 < length (filter (\<lambda>b. member_id b = mid \<and> status b = Active) (heap s))"
    using assms(2-4) by (intro count_pos[of a]) simp_all
  then have "0 < active_of_member s mid"
    by (simp add: active_of_member_def ledger_values_heap[OF lo])
  moreover have "active_of_member s mid =
      (case map_get (members s) mid of None \<Rightarrow> 0 | Some m \<Rightarrow> if has_borrowed m then 1 else 0)"
    using fo by (simp add: flags_ok_def)
  ultimately show ?thesis
    using that by (auto split: option.splits if_splits)
qed

lemma return_unchanged:
  "fst (return_book now mid bid s) = Inl e \<Longrightarrow> e \<noteq> TypeError \<Longrightarrow>
   snd (return_book now mid bid s) = s"
  by (auto simp: return_book_def Let_def split: option.splits)

lemma return_cases:
  assumes "server_inv s"
  obtains
    (no_member) "map_get (members s) mid = None"
      "return_book now mid bid s = (Inl NotFound_member, s)"
  | (no_borrowing) m where "map_get (members s) mid = Some m"
      "\<not> list_ex (active_match mid bid) (ledger_values s)"
      "return_book now mid bid s = (Inl Invalid_no_active_borrowing, s)"
  | (returned) m a bk where "map_get (members s) mid = Some m" "has_borrowed m"
      "map_get (books s) bid = Some bk" "\<not> is_available bk"
      "a < length (heap s)" "active_match mid bid (heap s ! a)"
      "\<forall>j<a. \<not> active_match mid bid (heap s ! j)"
      "return_book now mid bid s =
        (Inr ((heap s ! a)\<lparr>status := Returned, returned_at := Some now\<rparr>),
         s\<lparr>heap := (heap s)[a := (heap s ! a)\<lparr>status := Returned, returned_at := Some now\<rparr>],
           members := map_set mid (m\<lparr>has_borrowed := False\<rparr>) (members s),
           books := map_set bid (bk\<lparr>is_available := True\<rparr>) (books s)\<rparr>)"
proof -
  from assms have lo: "ledger_ok s" by (simp add: server_inv_def)
  show ?thesis
  proof (cases "map_get (members s) mid")
    case None
    then show ?thesis using no_member by (simp add: return_book_def)
  next
    case (Some m)
    show ?thesis
    proof (cases "find (\<lambda>a. active_match mid bid (heap s ! a)) (map_values (borrowings s))")
      case None
      then have "\<not> list_ex (active_match mid bid) (ledger_values s)"
        using find_ledger_None[OF lo, of "active_match mid bid"] by simp
      then show ?thesis using no_borrowing Some None by (simp add: return_book_def)
    next
      case (Some a)
      note found = find_ledger[OF lo Some]
      then have a: "a < length (heap s)" and ma: "active_match mid bid (heap s ! a)"
        and first: "\<forall>j<a. \<not> active_match mid bid (heap s ! j)" by simp_all
      from ma have mm: "member_id (heap s ! a) = mid" and bb: "book_id (heap s ! a) = bid"
        and st: "status (heap s ! a) = Active"
        by (simp_all add: active_match_def)
      obtain bk where bk: "map_get (books s) bid = Some bk" "\<not> is_available bk"
        using active_book_exists[OF assms a bb st] by blast
      obtain m' where m': "map_get (members s) mid = Some m'" "has_borrowed m'"
        using active_member_flag[OF assms a mm st] by blast
      show ?thesis
        using returned[OF m' bk a ma first] m' bk Some
        by (simp add: return_book_def Let_def)
    qed
  qed
qed

lemma inv_return:
  assumes "server_inv s"
  shows "server_inv (snd (return_book now mid bid s))"
  using assms
proof (cases rule: return_cases[where now=now and mid=mid and bid=bid])
  case no_member
  then show ?thesis using assms by simp
next
  case (no_borrowing m)
  then show ?thesis using assms by simp
next
  case (returned m a bk)
  let ?b = "(heap s ! a)\<lparr>status := Returned, returned_at := Some now\<rparr>"
  let ?s' = "snd (return_book now mid bid s)"
  have s': "?s' = s\<lparr>heap := (heap s)[a := ?b],
           members := map_set mid (m\<lparr>has_borrowed := False\<rparr>) (members s),
           books := map_set bid (bk\<lparr>is_available := True\<rparr>) (books s)\<rparr>"
    using returned(8) by simp
  from assms have lo: "ledger_ok s" and ko: "keys_ok s" and fo: "flags_ok s" and ho: "history_ok s"
    by (simp_all add: server_inv_def)
  from returned(6) have mm: "member_id (heap s ! a) = mid" and bb: "book_id (heap s ! a) = bid"
    and st: "status (heap s ! a) = Active"
    by (simp_all add: active_match_def)
  have "map transaction_id ((heap s)[a := ?b]) = map transaction_id (heap s)"
    using returned(5) by (simp add: map_update list_update_same_conv)
  then have lo': "ledger_ok ?s'"
    using lo by (simp add: s' ledger_ok_def)
  have ko': "keys_ok ?s'"
    using ko by (simp add: s' keys_ok_def distinct_map_set)
  have vals: "ledger_values ?s' = (heap s)[a := ?b]"
    using ledger_values_heap[OF lo'] by (simp add: s')
  have vals0: "ledger_values s = heap s" using lo by (rule ledger_values_heap)
  have fm: "active_of_member ?s' k =
      (case map_get (members ?s') k of None \<Rightarrow> 0 | Some m \<Rightarrow> if has_borrowed m then 1 else 0)" for k
  proof -
    have old: "active_of_member s k =
      (case map_get (members s) k of None \<Rightarrow> 0 | Some m \<Rightarrow> if has_borrowed m then 1 else 0)"
      using fo by (simp add: flags_ok_def)
    show ?thesis
    proof (cases "k = mid")
      case True
      have "Suc (active_of_member ?s' k) = active_of_member s k"
        unfolding active_of_member_def vals vals0
        using returned(5) mm st True by (intro count_update) simp_all
      then show ?thesis
        using old returned(1,2) True by (simp add: s' map_get_map_set)
    next
      case False
      have "active_of_member ?s' k = active_of_member s k"
        unfolding active_of_member_def vals vals0
        using returned(5) mm False by (intro count_update_same) simp_all
      then show ?thesis
        using old False by (simp add: s' map_get_map_set)
    qed
  qed
  have fb: "active_of_book ?s' k =
      (case map_get (books ?s') k of None \<Rightarrow> 0 | Some bk \<Rightarrow> if is_available bk then 0 else 1)" for k
  proof -
    have old: "active_of_book s k =
      (case map_get (books s) k of None \<Rightarrow> 0 | Some bk \<Rightarrow> if is_available bk then 0 else 1)"
      using fo by (simp add: flags_ok_def)
    show ?thesis
    proof (cases "k = bid")
      case True
      have "Suc (active_of_book ?s' k) = active_of_book s k"
        unfolding active_of_book_def vals vals0
        using returned(5) bb st True by (intro count_update) simp_all
      then show ?thesis
        using old returned(3,4) True by (simp add: s' map_get_map_set)
    next
      case False
      have "active_of_book ?s' k = active_of_book s k"
        unfolding active_of_book_def vals vals0
        using returned(5) bb False by (intro count_update_same) simp_all
      then show ?thesis
        using old False by (simp add: s' map_get_map_set)
    qed
  qed
  have fo': "flags_ok ?s'"
    unfolding flags_ok_def using fm fb by blast
  have ho': "history_ok ?s'"
    using ho returned(1) by (auto simp: s' history_ok_def map_get_map_set split: if_splits)
  show ?thesis using lo' ko' fo' ho' by (simp add: server_inv_def)
qed

lemma ledger_values_members_upd [simp]:
  "ledger_values (s\<lparr>members := ms\<rparr>) = ledger_values s"
  by (simp add: ledger_values_def)

lemma ledger_values_books_upd [simp]:
  "ledger_values (s\<lparr>books := bs\<rparr>) = ledger_values s"
  by (simp add: ledger_values_def)

lemma inv_create_member:
  assumes "server_inv s"
  shows "server_inv (keep s (create_member mid nm ag s))"
proof (cases "create_member mid nm ag s")
  case (Inl e)
  then show ?thesis using assms by (simp add: keep_def)
next
  case (Inr s')
  then have new: "map_get (members s) mid = None"
    and s': "s' = s\<lparr>members := map_set mid
            \<lparr>m_member_id = mid, name = nm, age = the ag, has_borrowed = False, history = []\<rparr>
            (members s)\<rparr>"
    by (auto simp: create_member_def map_has_def split: if_splits)
  from assms show ?thesis
    unfolding Inr keep_def sum.case s'
    by (auto simp: server_inv_def ledger_ok_def keys_ok_def flags_ok_def history_ok_def
        distinct_map_set map_get_map_set new active_of_member_def active_of_book_def
        split: if_splits)
qed

lemma inv_update_member:
  assumes "server_inv s"
  shows "server_inv (keep s (update_member mid nm ag s))"
proof (cases "update_member mid nm ag s")
  case (Inl e)
  then show ?thesis using assms by (simp add: keep_def)
next
  case (Inr s')
  then obtain m m' where m: "map_get (members s) mid = Some m"
    and s': "s' = s\<lparr>members := map_set mid m' (members s)\<rparr>"
    and same: "has_borrowed m' = has_borrowed m" "history m' = history m"
    by (auto simp: update_member_def Let_def split: option.splits if_splits)
  from assms m show ?thesis
    unfolding Inr keep_def sum.case s'
    by (auto simp: server_inv_def ledger_ok_def keys_ok_def flags_ok_def history_ok_def
        distinct_map_set map_get_map_set same active_of_member_def active_of_book_def
        split: if_splits)
qed

lemma inv_delete_member:
  assumes "server_inv s"
  shows "server_inv (keep s (delete_member mid s))"
proof (cases "delete_member mid s")
  case (Inl e)
  then show ?thesis using assms by (simp add: keep_def)
next
  case (Inr s')
  then obtain m where m: "map_get (members s) mid = Some m" "\<not> has_borrowed m"
    and s': "s' = s\<lparr>members := map_delete mid (members s)\<rparr>"
    by (auto simp: delete_member_def split: option.splits if_splits)
  from assms have "active_of_member s mid = 0"
    using m by (simp add: server_inv_def flags_ok_def)
  with assms show ?thesis
    unfolding Inr keep_def sum.case s'
    by (auto simp: server_inv_def ledger_ok_def keys_ok_def flags_ok_def history_ok_def
        distinct_map_delete map_get_map_delete active_of_member_def active_of_book_def
        split: if_splits)
qed

lemma inv_create_book:
  assumes "server_inv s"
  shows "server_inv (keep s (create_book bid ti au isb s))"
proof (cases "create_book bid ti au isb s")
  case (Inl e)
  then show ?thesis using assms by (simp add: keep_def)
next
  case (Inr s')
  then have new: "map_get (books s) bid = None"
    and s': "s' = s\<lparr>books := map_set bid
            \<lparr>b_book_id = bid, title = ti, author = au, isbn = isb, is_available = True\<rparr>
            (books s)\<rparr>"
    by (auto simp: create_book_def map_has_def split: if_splits)
  from assms show ?thesis
    unfolding Inr keep_def sum.case s'
    by (auto simp: server_inv_def ledger_ok_def keys_ok_def flags_ok_def history_ok_def
        distinct_map_set map_get_map_set new active_of_member_def active_of_book_def
        split: if_splits)
qed

lemma inv_delete_book:
  assumes "server_inv s"
  shows "server_inv (keep s (delete_book bid s))"
proof (cases "delete_book bid s")
  case (Inl e)
  then show ?thesis using assms by (simp add: keep_def)
next
  case (Inr s')
  then have none: "\<not> list_ex (\<lambda>b. book_id b = bid \<and> status b = Active) (ledger_values s)"
    and s': "s' = s\<lparr>books := map_delete bid (books s)\<rparr>"
    by (auto simp: delete_book_def split: option.splits if_splits)
  from none have "active_of_book s bid = 0"
    by (simp add: active_of_book_def list_ex_iff)
  with assms show ?thesis
    unfolding Inr keep_def sum.case s'
    by (auto simp: server_inv_def ledger_ok_def keys_ok_def flags_ok_def history_ok_def
        distinct_map_delete map_get_map_delete active_of_member_def active_of_book_def
        split: if_splits)
qed

lemma inv_handle: "server_inv s \<Longrightarrow> server_inv (handle tza now rq s)"
  by (cases rq)
    (simp_all add: inv_create_member inv_update_member inv_delete_member
      inv_create_book inv_delete_book inv_borrow inv_return)

lemma inv_run_from: "server_inv s \<Longrightarrow> server_inv (run_from tza s evs)"
  by (induction evs arbitrary: s) (simp_all add: inv_handle)

lemma inv_run: "server_inv (run tza evs)"
  by (simp add: run_def inv_run_from inv_init)

lemma run_ledger_values: "ledger_values (run tza evs) = heap (run tza evs)"
  using inv_run[of tza evs] by (simp add: server_inv_def ledger_values_heap)

section \<open>Transaction ids along a run\<close>

lemma heap_handle_other:
  "(\<forall>mid bid. rq \<noteq> Borrow mid bid) \<Longrightarrow> length (heap (handle tza now rq s)) = length (heap s)"
  by (cases rq)
    (auto simp: keep_def create_member_def update_member_def delete_member_def create_book_def
      delete_book_def return_book_def Let_def split: sum.splits option.splits if_splits)

lemma assigned_ids_from:
  assumes "server_inv s"
  shows "assigned_ids tza s evs
           = map (\<lambda>i. int i + 1) [length (heap s)..<length (heap (run_from tza s evs))]
         \<and> length (heap s) \<le> length (heap (run_from tza s evs))"
  using assms
proof (induction evs arbitrary: s)
  case Nil
  then show ?case by simp
next
  case (Cons ev evs)
  let ?s1 = "handle tza (fst ev) (snd ev) s"
  let ?n = "length (heap s)"
  let ?m = "length (heap (run_from tza ?s1 evs))"
  have i1: "server_inv ?s1" using Cons.prems by (rule inv_handle)
  note IH = Cons.IH[OF i1]
  have len: "length (borrowings s) = ?n"
    using Cons.prems by (simp add: server_inv_def ledger_length)
  show ?case
  proof (cases "\<exists>mid bid b. snd ev = Borrow mid bid \<and> fst (borrow tza (fst ev) mid bid s) = Inr b")
    case True
    then obtain mid bid b where rq: "snd ev = Borrow mid bid"
      and r: "fst (borrow tza (fst ev) mid bid s) = Inr b" by blast
    from r have tid: "transaction_id b = int ?n + 1"
      and h1: "heap ?s1 = heap s @ [b]"
      by (auto elim!: borrow_Inr simp: rq len)
    have n1: "length (heap ?s1) = Suc ?n" by (simp add: h1)
    have le: "Suc ?n \<le> ?m" using IH n1 by simp
    have "assigned_ids tza s (ev # evs) = transaction_id b # assigned_ids tza ?s1 evs"
      by (simp add: rq r)
    also have "\<dots> = (int ?n + 1) # map (\<lambda>i. int i + 1) [Suc ?n..<?m]"
      using IH unfolding n1 tid by simp
    also have "\<dots> = map (\<lambda>i. int i + 1) [?n..<?m]"
      using le by (simp add: upt_conv_Cons)
    finally show ?thesis using le by simp
  next
    case False
    have hd: "(case snd ev of
         Borrow mid bid \<Rightarrow>
           (case fst (borrow tza (fst ev) mid bid s) of Inl e \<Rightarrow> [] | Inr b \<Rightarrow> [transaction_id b])
       | _ \<Rightarrow> []) = []"
      using False by (auto split: request.splits sum.splits)
    have n1: "length (heap ?s1) = ?n"
    proof (cases "\<exists>mid bid. snd ev = Borrow mid bid")
      case True
      then obtain mid bid where rq: "snd ev = Borrow mid bid" by blast
      with False obtain e where "fst (borrow tza (fst ev) mid bid s) = Inl e"
        by (cases "fst (borrow tza (fst ev) mid bid s)") auto
      then show ?thesis by (simp add: rq borrow_Inl)
    next
      case False
      then show ?thesis by (simp add: heap_handle_other)
    qed
    have "assigned_ids tza s (ev # evs) = assigned_ids tza ?s1 evs"
      using hd by simp
    then show ?thesis
      using IH unfolding n1 by simp
  qed
qed

section \<open>A borrowing stays as it is until it is returned\<close>

lemma unique_active:
  assumes "server_inv s" and "a < length (heap s)" and "a' < length (heap s)"
    and "member_id (heap s ! a) = mid" and "status (heap s ! a) = Active"
    and "member_id (heap s ! a') = mid" and "status (heap s ! a') = Active"
  shows "a = a'"
proof (rule ccontr)
  assume ne: "a \<noteq> a'"
  let ?P = "\<lambda>b. member_id b = mid \<and> status b = Active"
  let ?y = "(heap s ! a)\<lparr>status := Returned\<rparr>"
  from assms(1) have lo: "ledger_ok s" and fo: "flags_ok s" by (simp_all add: server_inv_def)
  have "Suc (length (filter ?P ((heap s)[a := ?y]))) = length (filter ?P (heap s))"
    using assms(2,4,5) by (intro count_update) simp_all
  moreover have "0 < length (filter ?P ((heap s)[a := ?y]))"
    using assms(3,6,7) ne by (intro count_pos[of a']) simp_all
  ultimately have "2 \<le> length (filter ?P (heap s))"
    by linarith
  then have "2 \<le> active_of_member s mid"
    by (simp add: active_of_member_def ledger_values_heap[OF lo])
  moreover have "active_of_member s mid \<le> 1"
    using fo by (simp add: flags_ok_def split: option.splits)
  ultimately show False by simp
qed

lemma on_loan_handle:
  assumes "on_loan mid h a b s" and "rq \<noteq> Return mid (book_id b)"
  shows "on_loan mid h a b (handle tza now rq s)"
proof -
  from assms(1) obtain m where i: "server_inv s"
    and m: "map_get (members s) mid = Some m" "has_borrowed m" "history m = h"
    and a: "a < length (heap s)" "heap s ! a = b"
    and b: "member_id b = mid" "status b = Active"
    by (auto simp: on_loan_def)
  have i': "server_inv (handle tza now rq s)" using i by (rule inv_handle)
  have "(\<exists>m. map_get (members (handle tza now rq s)) mid = Some m \<and> has_borrowed m \<and> history m = h)
      \<and> a < length (heap (handle tza now rq s)) \<and> heap (handle tza now rq s) ! a = b"
  proof (cases rq)
    case (CreateMember k nm ag)
    then show ?thesis
      using m a
      by (auto simp: keep_def create_member_def map_has_def map_get_map_set split: if_splits)
  next
    case (UpdateMember k nm ag)
    then show ?thesis
      using m a
      by (auto simp: keep_def update_member_def Let_def map_get_map_set
          split: option.splits if_splits)
  next
    case (DeleteMember k)
    then show ?thesis
      using m a
      by (auto simp: keep_def delete_member_def map_get_map_delete
          split: option.splits if_splits)
  next
    case (CreateBook k ti au isb)
    then show ?thesis
      using m a by (auto simp: keep_def create_book_def split: if_splits)
  next
    case (DeleteBook k)
    then show ?thesis
      using m a by (auto simp: keep_def delete_book_def split: if_splits)
  next
    case (Borrow k b2)
    show ?thesis
    proof (cases "fst (borrow tza now k b2 s)")
      case (Inl e)
      then show ?thesis using m a Borrow by (simp add: borrow_Inl)
    next
      case (Inr nb)
      then obtain m' bk where
        m': "map_get (members s) k = Some m'" "\<not> has_borrowed m'" and
        upd: "snd (borrow tza now k b2 s) =
          s\<lparr>borrowings := map_set (int (length (borrowings s)) + 1) (length (heap s)) (borrowings s),
            heap := heap s @ [nb],
            members := map_set k (m'\<lparr>has_borrowed := True, history := history m' @ [length (heap s)]\<rparr>) (members s),
            books := map_set b2 (bk\<lparr>is_available := False\<rparr>) (books s)\<rparr>"
        by (auto elim!: borrow_Inr)
      have "k \<noteq> mid" using m m' by auto
      then show ?thesis
        using m a by (simp add: Borrow upd map_get_map_set nth_append)
    qed
  next
    case (Return k b2)
    from i show ?thesis
    proof (cases rule: return_cases[where now = now and mid = k and bid = b2])
      case no_member
      then show ?thesis using m a Return by simp
    next
      case (no_borrowing m')
      then show ?thesis using m a Return by simp
    next
      case (returned m' a' bk)
      from returned(6) have f: "member_id (heap s ! a') = k" "book_id (heap s ! a') = b2"
        "status (heap s ! a') = Active"
        by (simp_all add: active_match_def)
      have ne: "a' \<noteq> a"
      proof
        assume "a' = a"
        then have "k = mid" "b2 = book_id b" using f a b by simp_all
        then show False using assms(2) Return by simp
      qed
      have "k \<noteq> mid"
      proof
        assume "k = mid"
        then have "a = a'"
          using unique_active[OF i a(1) returned(5), of mid] a b f by simp
        then show False using ne by simp
      qed
      then show ?thesis
        using m a ne by (simp add: Return returned(8) map_get_map_set)
    qed
  qed
  then show ?thesis using i' b by (simp add: on_loan_def)
qed

lemma on_loan_run_from:
  assumes "on_loan mid h a b s" and "\<forall>ev \<in> set evs. snd ev \<noteq> Return mid (book_id b)"
  shows "on_loan mid h a b (run_from tza s evs)"
  using assms
proof (induction evs arbitrary: s)
  case Nil
  then show ?case by simp
next
  case (Cons ev evs)
  have "on_loan mid h a b (handle tza (fst ev) (snd ev) s)"
    using Cons.prems by (intro on_loan_handle) simp_all
  then show ?case using Cons by simp
qed

section \<open>The dates of the stored records\<close>

lemma dates_handle:
  assumes "\<forall>b\<in>set (heap s). due_date b = dueDate tza (borrowed_at b)"
  shows "\<forall>b\<in>set (heap (handle tza now rq s)). due_date b = dueDate tza (borrowed_at b)"
proof (cases rq)
  case (Borrow mid bid)
  then show ?thesis
    using assms by (auto simp: borrow_def Let_def split: if_splits)
next
  case (Return mid bid)
  then show ?thesis
    using assms
    by (auto simp: return_book_def Let_def split: option.splits dest!: set_update_cases)
qed (use assms in \<open>auto simp: keep_def create_member_def update_member_def delete_member_def
      create_book_def delete_book_def Let_def split: sum.splits option.splits if_splits\<close>)

lemma dates_run_from:
  "\<forall>b\<in>set (heap s). due_date b = dueDate tza (borrowed_at b) \<Longrightarrow>
   \<forall>b\<in>set (heap (run_from tza s evs)). due_date b = dueDate tza (borrowed_at b)"
proof (induction evs arbitrary: s)
  case Nil
  then show ?case by simp
next
  case (Cons ev evs)
  show ?case
    unfolding run_from.simps
    by (rule Cons.IH) (rule dates_handle[OF Cons.prems])
qed

lemma dates_run: "\<forall>b\<in>set (heap (run tza evs)). due_date b = dueDate tza (borrowed_at b)"
  unfolding run_def by (rule dates_run_from) (simp add: init_state_def)

lemma dates_kept:
  assumes "a < length (heap s)"
  shows "due_date (heap (handle tza now rq s) ! a) = due_date (heap s ! a)
       \<and> borrowed_at (heap (handle tza now rq s) ! a) = borrowed_at (heap s ! a)"
proof (cases rq)
  case (Borrow mid bid)
  then show ?thesis
    using assms by (auto simp: borrow_def Let_def nth_append split: if_splits)
next
  case (Return mid bid)
  have "due_date (xs[i := (xs ! i)\<lparr>status := Returned, returned_at := Some now\<rparr>] ! a)
          = due_date (xs ! a)
      \<and> borrowed_at (xs[i := (xs ! i)\<lparr>status := Returned, returned_at := Some now\<rparr>] ! a)
          = borrowed_at (xs ! a)" if "a < length xs" for xs :: "borrowing list" and i
    using that by (cases "i = a") simp_all
  then show ?thesis
    using assms Return
    by (auto simp: return_book_def Let_def split: option.splits)
qed (auto simp: keep_def create_member_def update_member_def delete_member_def
      create_book_def delete_book_def Let_def split: sum.splits option.splits if_splits)

lemma dueDate_difference:
  "dueDate tza t - t = 14 * (24 * 3600000)
   \<longleftrightarrow> tza (LocalTime tza t + 14 * msPerDay) False = tza t True"
  by (auto simp: dueDate_def UTC_time_def LocalTime_def msPerDay_def)

section \<open>Whole days\<close>

lemma floor_div_iff:
  fixes d x m :: int
  assumes "0 < m"
  shows "d * m \<le> x \<and> x < (d + 1) * m \<longleftrightarrow> d = x div m"
proof
  assume b: "d * m \<le> x \<and> x < (d + 1) * m"
  have "x div m = d"
  proof (rule int_div_pos_eq[where r = "x - d * m"])
    show "x = m * d + (x - d * m)" by (simp add: mult.commute)
    show "0 \<le> x - d * m" using b by simp
    show "x - d * m < m" using b by (simp add: algebra_simps)
  qed
  then show "d = x div m" by simp
next
  assume d: "d = x div m"
  have e: "x div m * m = x - x mod m" by (simp add: minus_mod_eq_div_mult)
  have r: "0 \<le> x mod m" "x mod m < m" using assms by simp_all
  have "x div m * m \<le> x" unfolding e using r(1) by simp
  moreover have "(x div m + 1) * m = x - x mod m + m"
    unfolding e[symmetric] by (simp add: distrib_right)
  then have "x < (x div m + 1) * m" using r(2) by simp
  ultimately show "d * m \<le> x \<and> x < (d + 1) * m" unfolding d by simp
qed

lemma msPerDay_pos: "0 < msPerDay"
  by (simp add: msPerDay_def)

lemma overdue_entry_days:
  "days_overdue (overdue_entry now b) = (now - due_date b) div msPerDay"
  unfolding overdue_entry_def msPerDay_def by simp

lemma overdue_entry_fields:
  "ov_due_date (overdue_entry now b) = due_date b"
  "ov_borrowed_at (overdue_entry now b) = borrowed_at b"
  by (simp_all add: overdue_entry_def)

lemma overdue_set:
  "set (overdue now s) =
     overdue_entry now ` {b \<in> set (ledger_values s). status b = Active \<and> due_date b < now}"
  by (auto simp: overdue_def)

lemma days_bounds:
  assumes "dv = (now - dd) div msPerDay"
  shows "dv * msPerDay \<le> now - dd \<and> now - dd < (dv + 1) * msPerDay"
  using assms floor_div_iff[OF msPerDay_pos, of dv "now - dd"] by blast

lemma days_zero:
  assumes "dv = (now - dd) div msPerDay" and "dd < (now::int)" and "now - dd < msPerDay"
  shows "dv = 0"
  unfolding assms(1) using assms(2,3) by (intro div_pos_pos_trivial) simp_all

lemma days_one:
  assumes "dv = (now - dd) div msPerDay" and "dd = bb + 14 * msPerDay"
    and "now = bb + 15 * msPerDay"
  shows "dv = 1"
proof -
  have el: "now - dd = msPerDay" using assms(2,3) by simp
  show ?thesis unfolding assms(1) el using msPerDay_pos by simp
qed

section \<open>The sample runs, evaluated\<close>

lemma dueDate_utc: "dueDate utc_zone t = t + 1209600000"
  by (simp add: dueDate_def utc_zone_def LocalTime_def UTC_time_def msPerDay_def)

lemma dueDate_ny_spring: "dueDate new_york_2024 1709294400000 = 1710500400000"
  by (simp add: dueDate_def new_york_2024_def LocalTime_def UTC_time_def msPerDay_def)

lemma dueDate_ny_autumn: "dueDate new_york_2024 1729857600000 = 1731070800000"
  by (simp add: dueDate_def new_york_2024_def LocalTime_def UTC_time_def msPerDay_def)

lemma loan_fields:
  "borrowed_at (loan t d) = t" "due_date (loan t d) = d" "status (loan t d) = Active"
  by (simp_all add: loan_def)

lemma run_setup: "run tza setup_events = setup_state"
  by (simp add: run_def setup_events_def init_state_def keep_def create_member_def
      create_book_def map_has_def map_get_def setup_state_def ann_def emma_def)

lemma borrow_setup:
  "borrow tza t 1 101 setup_state = (Inr (loan t (dueDate tza t)), borrowed_state t (dueDate tza t))"
  by (simp add: borrow_def setup_state_def borrowed_state_def loan_def ann_def emma_def
      map_has_def map_get_def Let_def)

lemma run_borrow: "run tza (borrow_events t) = borrowed_state t (dueDate tza t)"
  using run_setup[of tza]
  by (simp add: run_def borrow_events_def run_from_append borrow_setup)

lemma ledger_values_borrowed: "ledger_values (borrowed_state t d) = [loan t d]"
  by (simp add: ledger_values_def map_values_def borrowed_state_def)

lemma run_second_member:
  "run tza (second_member_events t) = second_member_state t (dueDate tza t)"
  using run_borrow[of tza t]
  by (simp add: run_def second_member_events_def bob_joins_def run_from_append keep_def
      create_member_def map_has_def map_get_def borrowed_state_def second_member_state_def
      bob_def)

lemma run_from_second_member:
  "run_from tza (borrowed_state t d) (bob_joins u) = second_member_state t d"
  by (simp add: bob_joins_def keep_def create_member_def map_has_def map_get_def
      borrowed_state_def second_member_state_def bob_def)

lemma return_borrowed:
  "return_book r 1 101 (borrowed_state t d) =
    (Inr ((loan t d)\<lparr>status := Returned, returned_at := Some r\<rparr>), returned_state t d r)"
  by (simp add: return_book_def borrowed_state_def returned_state_def map_get_def map_values_def
      active_match_def loan_def Let_def ann_def emma_def)

lemma return_second_member:
  "return_book r 1 101 (second_member_state t d) =
    (Inr ((loan t d)\<lparr>status := Returned, returned_at := Some r\<rparr>),
     (returned_state t d r)\<lparr>members := members (returned_state t d r) @ [(2, bob)]\<rparr>)"
  by (simp add: return_book_def second_member_state_def returned_state_def map_get_def
      map_values_def active_match_def loan_def Let_def ann_def emma_def)

lemma run_reborrow:
  "run utc_zone reborrow_events =
    \<lparr>members = [(1, ann\<lparr>has_borrowed := True, history := [0, 1]\<rparr>)],
     books = [(101, emma\<lparr>is_available := False\<rparr>)],
     borrowings = [(1, 0), (2, 1)],
     heap = [(loan 5 1209600005)\<lparr>status := Returned, returned_at := Some 7\<rparr>,
             (loan 9 1209600009)\<lparr>transaction_id := 2\<rparr>]\<rparr>"
proof -
  have "run utc_zone reborrow_events
      = snd (borrow utc_zone 9 1 101 (returned_state 5 1209600005 7))"
    using run_borrow[of utc_zone 5]
    by (simp add: run_def reborrow_events_def run_from_append dueDate_utc return_borrowed)
  also have "\<dots> = \<lparr>members = [(1, ann\<lparr>has_borrowed := True, history := [0, 1]\<rparr>)],
     books = [(101, emma\<lparr>is_available := False\<rparr>)],
     borrowings = [(1, 0), (2, 1)],
     heap = [(loan 5 1209600005)\<lparr>status := Returned, returned_at := Some 7\<rparr>,
             (loan 9 1209600009)\<lparr>transaction_id := 2\<rparr>]\<rparr>"
    by (simp add: borrow_def returned_state_def map_has_def map_get_def Let_def dueDate_utc
        loan_def ann_def emma_def)
  finally show ?thesis .
qed

section \<open>The claims\<close>

subsection \<open>C1: the flags agree with the ledger\<close>

text \<open>
  Claim C1. In every state reached by a sequence of requests, a member's
  \<open>has_borrowed\<close> is true exactly when the ledger holds exactly one active
  borrowing with that member id, and a book's \<open>is_available\<close> is false exactly
  when the ledger holds exactly one active borrowing with that book id. (There
  is never more than one.)
\<close>

theorem flags_match_ledger:
  "(\<forall>(k, m) \<in> set (members (run tza evs)).
      (has_borrowed m \<longleftrightarrow> active_of_member (run tza evs) k = 1)
      \<and> active_of_member (run tza evs) k \<le> 1)
   \<and> (\<forall>(k, bk) \<in> set (books (run tza evs)).
      (\<not> is_available bk \<longleftrightarrow> active_of_book (run tza evs) k = 1)
      \<and> active_of_book (run tza evs) k \<le> 1)"
proof -
  let ?s = "run tza evs"
  have i: "server_inv ?s" by (rule inv_run)
  then have ko: "keys_ok ?s" and fo: "flags_ok ?s" by (simp_all add: server_inv_def)
  have "(has_borrowed m \<longleftrightarrow> active_of_member ?s k = 1) \<and> active_of_member ?s k \<le> 1"
    if "(k, m) \<in> set (members ?s)" for k m
  proof -
    have "map_get (members ?s) k = Some m"
      using that ko by (simp add: keys_ok_def map_get_Some_iff)
    moreover have "active_of_member ?s k =
      (case map_get (members ?s) k of None \<Rightarrow> 0 | Some m \<Rightarrow> if has_borrowed m then 1 else 0)"
      using fo by (simp add: flags_ok_def)
    ultimately show ?thesis by simp
  qed
  moreover
  have "(\<not> is_available bk \<longleftrightarrow> active_of_book ?s k = 1) \<and> active_of_book ?s k \<le> 1"
    if "(k, bk) \<in> set (books ?s)" for k bk
  proof -
    have "map_get (books ?s) k = Some bk"
      using that ko by (simp add: keys_ok_def map_get_Some_iff)
    moreover have "active_of_book ?s k =
      (case map_get (books ?s) k of None \<Rightarrow> 0 | Some bk \<Rightarrow> if is_available bk then 0 else 1)"
      using fo by (simp add: flags_ok_def)
    ultimately show ?thesis by simp
  qed
  ultimately show ?thesis by blast
qed

theorem flags_match_ledger_witness:
  "(1, ann\<lparr>has_borrowed := True, history := [0]\<rparr>) \<in> set (members (run utc_zone (borrow_events 5)))
   \<and> has_borrowed (ann\<lparr>has_borrowed := True, history := [0]\<rparr>)
   \<and> active_of_member (run utc_zone (borrow_events 5)) 1 = 1
   \<and> (101, emma\<lparr>is_available := False\<rparr>) \<in> set (books (run utc_zone (borrow_events 5)))
   \<and> \<not> is_available (emma\<lparr>is_available := False\<rparr>)
   \<and> active_of_book (run utc_zone (borrow_events 5)) 101 = 1
   \<and> (1, ann) \<in> set (members (run utc_zone setup_events))
   \<and> \<not> has_borrowed ann
   \<and> active_of_member (run utc_zone setup_events) 1 = 0"
  using flags_match_ledger[of utc_zone "borrow_events 5"] flags_match_ledger[of utc_zone setup_events]
  by (simp add: run_borrow run_setup borrowed_state_def setup_state_def ann_def emma_def)

subsection \<open>C2: the order of the checks of a borrow request\<close>

text \<open>
  Claim C2. A borrow request checks, in this order, that the member exists,
  that the book exists, that the member has no borrowing and that the book is
  available; the first check that fails decides the error, and the request
  succeeds exactly when all four pass.
\<close>

theorem borrow_precondition_order:
  "(\<not> map_has (members s) mid \<longrightarrow>
      fst (borrow tza now mid bid s) = Inl NotFound_member)
   \<and> (map_has (members s) mid \<and> \<not> map_has (books s) bid \<longrightarrow>
      fst (borrow tza now mid bid s) = Inl NotFound_book)
   \<and> (map_get (members s) mid = Some m \<and> map_has (books s) bid \<and> has_borrowed m \<longrightarrow>
      fst (borrow tza now mid bid s) = Inl Conflict_already_borrowed)
   \<and> (map_get (members s) mid = Some m \<and> map_get (books s) bid = Some bk
        \<and> \<not> has_borrowed m \<and> \<not> is_available bk \<longrightarrow>
      fst (borrow tza now mid bid s) = Inl Conflict_unavailable)
   \<and> ((\<exists>b. fst (borrow tza now mid bid s) = Inr b) \<longleftrightarrow>
       (\<exists>m' bk'. map_get (members s) mid = Some m' \<and> map_get (books s) bid = Some bk'
          \<and> \<not> has_borrowed m' \<and> is_available bk'))"
  by (auto simp: borrow_def Let_def map_has_def split: if_splits)

theorem borrow_precondition_order_witness:
  "fst (borrow utc_zone 5 1 101 init_state) = Inl NotFound_member
   \<and> fst (borrow utc_zone 5 1 102 setup_state) = Inl NotFound_book
   \<and> fst (borrow utc_zone 5 1 101 (borrowed_state 0 9)) = Inl Conflict_already_borrowed
   \<and> fst (borrow utc_zone 5 2 101 (second_member_state 0 9)) = Inl Conflict_unavailable
   \<and> (\<exists>b. fst (borrow utc_zone 5 1 101 setup_state) = Inr b)"
  using borrow_precondition_order[where s = init_state and mid = 1 and bid = 101
      and tza = utc_zone and now = 5]
    borrow_precondition_order[where s = setup_state and mid = 1 and bid = 102
      and tza = utc_zone and now = 5]
    borrow_precondition_order[where s = "borrowed_state 0 9" and mid = 1 and bid = 101
      and tza = utc_zone and now = 5 and m = "ann\<lparr>has_borrowed := True, history := [0]\<rparr>"]
    borrow_precondition_order[where s = "second_member_state 0 9" and mid = 2 and bid = 101
      and tza = utc_zone and now = 5 and m = bob and bk = "emma\<lparr>is_available := False\<rparr>"]
    borrow_precondition_order[where s = setup_state and mid = 1 and bid = 101
      and tza = utc_zone and now = 5]
  by (simp add: init_state_def setup_state_def borrowed_state_def second_member_state_def
      map_has_def map_get_def ann_def bob_def emma_def)

subsection \<open>C3: what a successful borrow request does\<close>

text \<open>
  Claim C3. A successful borrow request takes the size of the ledger plus one
  as transaction id, records the current time as \<open>borrowed_at\<close>, sets
  \<open>due_date\<close>, copies the member's name and the book's title, sets the status
  to active, inserts the record into the ledger, appends the same record (the
  same address of the store) to the member's history, sets the member's
  \<open>has_borrowed\<close> and clears the book's \<open>is_available\<close>, and answers with the
  record. The four components of the state after the request are given in
  full, so nothing else changes.
\<close>

theorem borrow_effects:
  assumes "borrow tza now mid bid (run tza evs) = (Inr b, s')"
  shows "\<exists>m bk.
      map_get (members (run tza evs)) mid = Some m
    \<and> map_get (books (run tza evs)) bid = Some bk
    \<and> b = \<lparr>transaction_id = int (length (borrowings (run tza evs))) + 1,
            member_id = mid, member_name = name m, book_id = bid, book_title = title bk,
            borrowed_at = now, due_date = dueDate tza now, status = Active,
            returned_at = None\<rparr>
    \<and> borrowings s' = borrowings (run tza evs) @ [(transaction_id b, length (heap (run tza evs)))]
    \<and> heap s' = heap (run tza evs) @ [b]
    \<and> ledger_values s' = ledger_values (run tza evs) @ [b]
    \<and> members s' = map_set mid
          (m\<lparr>has_borrowed := True, history := history m @ [length (heap (run tza evs))]\<rparr>)
          (members (run tza evs))
    \<and> books s' = map_set bid (bk\<lparr>is_available := False\<rparr>) (books (run tza evs))"
proof -
  let ?s = "run tza evs"
  have i: "server_inv ?s" by (rule inv_run)
  then have lo: "ledger_ok ?s" by (simp add: server_inv_def)
  from assms have r: "fst (borrow tza now mid bid ?s) = Inr b"
    and s': "snd (borrow tza now mid bid ?s) = s'" by simp_all
  from r obtain m bk where
    m: "map_get (members ?s) mid = Some m" and bk: "map_get (books ?s) bid = Some bk" and
    b: "b = \<lparr>transaction_id = int (length (borrowings ?s)) + 1, member_id = mid,
          member_name = name m, book_id = bid, book_title = title bk, borrowed_at = now,
          due_date = dueDate tza now, status = Active, returned_at = None\<rparr>" and
    upd: "snd (borrow tza now mid bid ?s) =
       ?s\<lparr>borrowings := map_set (int (length (borrowings ?s)) + 1) (length (heap ?s)) (borrowings ?s),
         heap := heap ?s @ [b],
         members := map_set mid (m\<lparr>has_borrowed := True, history := history m @ [length (heap ?s)]\<rparr>) (members ?s),
         books := map_set bid (bk\<lparr>is_available := False\<rparr>) (books ?s)\<rparr>"
    by (rule borrow_Inr)
  have len: "length (borrowings ?s) = length (heap ?s)" using lo by (rule ledger_length)
  have tid: "transaction_id b = int (length (heap ?s)) + 1" by (simp add: b len)
  have app: "map_set (int (length (heap ?s)) + 1) (length (heap ?s)) (borrowings ?s)
        = borrowings ?s @ [(int (length (heap ?s)) + 1, length (heap ?s))]"
    using lo by (intro map_set_fresh ledger_fresh_key)
  have s'_eq: "s' =
       ?s\<lparr>borrowings := map_set (int (length (borrowings ?s)) + 1) (length (heap ?s)) (borrowings ?s),
         heap := heap ?s @ [b],
         members := map_set mid (m\<lparr>has_borrowed := True, history := history m @ [length (heap ?s)]\<rparr>) (members ?s),
         books := map_set bid (bk\<lparr>is_available := False\<rparr>) (books ?s)\<rparr>"
    using s' upd by simp
  have i': "server_inv s'" using inv_borrow[OF i, of tza now mid bid] s' by simp
  then have "ledger_values s' = heap s'" by (simp add: server_inv_def ledger_values_heap)
  moreover have "ledger_values ?s = heap ?s" using lo by (rule ledger_values_heap)
  moreover have hp: "heap s' = heap ?s @ [b]" by (simp add: s'_eq)
  ultimately have vals: "ledger_values s' = ledger_values ?s @ [b]" by simp
  have "borrowings s' = borrowings ?s @ [(transaction_id b, length (heap ?s))]"
    using app by (simp add: s'_eq tid len)
  moreover note hp
  moreover have "members s' = map_set mid
          (m\<lparr>has_borrowed := True, history := history m @ [length (heap ?s)]\<rparr>) (members ?s)"
    by (simp add: s'_eq)
  moreover have "books s' = map_set bid (bk\<lparr>is_available := False\<rparr>) (books ?s)"
    by (simp add: s'_eq)
  ultimately show ?thesis using m bk b vals by blast
qed

theorem borrow_effects_witness:
  "borrow utc_zone 5 1 101 (run utc_zone setup_events)
     = (Inr (loan 5 1209600005), borrowed_state 5 1209600005)
   \<and> map_get (members (run utc_zone setup_events)) 1 = Some ann
   \<and> map_get (books (run utc_zone setup_events)) 101 = Some emma
   \<and> transaction_id (loan 5 1209600005) = int (length (borrowings (run utc_zone setup_events))) + 1
   \<and> heap (borrowed_state 5 1209600005) = heap (run utc_zone setup_events) @ [loan 5 1209600005]
   \<and> ledger_values (borrowed_state 5 1209600005) = [loan 5 1209600005]
   \<and> members (borrowed_state 5 1209600005) = [(1, ann\<lparr>has_borrowed := True, history := [0]\<rparr>)]
   \<and> books (borrowed_state 5 1209600005) = [(101, emma\<lparr>is_available := False\<rparr>)]"
proof -
  have b: "borrow utc_zone 5 1 101 (run utc_zone setup_events)
     = (Inr (loan 5 1209600005), borrowed_state 5 1209600005)"
    by (simp add: run_setup borrow_setup dueDate_utc)
  show ?thesis
    using borrow_effects[OF b] b
    by (simp add: run_setup setup_state_def borrowed_state_def map_get_def ledger_values_def
        map_values_def loan_def)
qed

subsection \<open>C4: what a return request does\<close>

text \<open>
  Claim C4. A return request fails with \<open>NotFound_member\<close> when the member
  does not exist; otherwise it fails with \<open>Invalid_no_active_borrowing\<close> when
  no record of the ledger has that member id, that book id and status active;
  otherwise it sets that record's status to returned and its \<open>returned_at\<close>
  to the current time, clears the member's \<open>has_borrowed\<close>, sets the book's
  \<open>is_available\<close> and answers with the updated record.
\<close>

theorem return_behaviour:
  "(map_get (members (run tza evs)) mid = None \<longrightarrow>
      return_book now mid bid (run tza evs) = (Inl NotFound_member, run tza evs))
   \<and> (map_get (members (run tza evs)) mid \<noteq> None
        \<and> \<not> list_ex (active_match mid bid) (ledger_values (run tza evs)) \<longrightarrow>
      return_book now mid bid (run tza evs) = (Inl Invalid_no_active_borrowing, run tza evs))
   \<and> (map_get (members (run tza evs)) mid = Some m
        \<and> list_ex (active_match mid bid) (ledger_values (run tza evs)) \<longrightarrow>
      (\<exists>a bk. a \<in> set (map_values (borrowings (run tza evs)))
         \<and> a < length (heap (run tza evs))
         \<and> active_match mid bid (heap (run tza evs) ! a)
         \<and> map_get (books (run tza evs)) bid = Some bk
         \<and> return_book now mid bid (run tza evs) =
            (Inr ((heap (run tza evs) ! a)\<lparr>status := Returned, returned_at := Some now\<rparr>),
             (run tza evs)\<lparr>heap := (heap (run tza evs))
                   [a := (heap (run tza evs) ! a)\<lparr>status := Returned, returned_at := Some now\<rparr>],
               members := map_set mid (m\<lparr>has_borrowed := False\<rparr>) (members (run tza evs)),
               books := map_set bid (bk\<lparr>is_available := True\<rparr>) (books (run tza evs))\<rparr>)))"
proof -
  let ?s = "run tza evs"
  have i: "server_inv ?s" by (rule inv_run)
  then have lo: "ledger_ok ?s" by (simp add: server_inv_def)
  show ?thesis
    using i
  proof (cases rule: return_cases[where now = now and mid = mid and bid = bid])
    case no_member
    then show ?thesis by simp
  next
    case (no_borrowing m')
    then show ?thesis by simp
  next
    case (returned m' a bk)
    have "a \<in> set (map_values (borrowings ?s))"
      using returned(5) by (simp add: ledger_addresses[OF lo])
    moreover have "list_ex (active_match mid bid) (ledger_values ?s)"
      using returned(5,6) by (auto simp: ledger_values_heap[OF lo] list_ex_iff)
    ultimately show ?thesis
      using returned by auto
  qed
qed

theorem return_behaviour_witness:
  "map_get (members (run utc_zone setup_events)) 2 = None
   \<and> return_book 7 2 101 (run utc_zone setup_events)
       = (Inl NotFound_member, run utc_zone setup_events)
   \<and> map_get (members (run utc_zone setup_events)) 1 \<noteq> None
   \<and> \<not> list_ex (active_match 1 101) (ledger_values (run utc_zone setup_events))
   \<and> return_book 7 1 101 (run utc_zone setup_events)
       = (Inl Invalid_no_active_borrowing, run utc_zone setup_events)
   \<and> map_get (members (run utc_zone (borrow_events 5))) 1
       = Some (ann\<lparr>has_borrowed := True, history := [0]\<rparr>)
   \<and> list_ex (active_match 1 101) (ledger_values (run utc_zone (borrow_events 5)))
   \<and> return_book 7 1 101 (run utc_zone (borrow_events 5))
       = (Inr ((loan 5 1209600005)\<lparr>status := Returned, returned_at := Some 7\<rparr>),
          returned_state 5 1209600005 7)"
  using return_behaviour[where tza = utc_zone and evs = setup_events and mid = 2
      and bid = 101 and now = 7]
    return_behaviour[where tza = utc_zone and evs = setup_events and mid = 1
      and bid = 101 and now = 7]
    return_behaviour[where tza = utc_zone and evs = "borrow_events 5" and mid = 1
      and bid = 101 and now = 7 and m = "ann\<lparr>has_borrowed := True, history := [0]\<rparr>"]
  by (simp add: run_setup run_borrow dueDate_utc return_borrowed)
    (simp add: setup_state_def borrowed_state_def map_get_def ledger_values_def
      map_values_def active_match_def loan_def)

subsection \<open>C5: the due date\<close>

text \<open>
  Claim C5, amended. For every borrowing ever created, \<open>due_date\<close> is
  \<open>borrowed_at\<close> moved forward by 14 calendar days of the server's local time.
  The difference is exactly 14 times 24 hours if and only if the offset of the
  local zone at the due wall-clock time equals its offset at the time of
  borrowing, as in UTC. The two fields are written once, when the record is
  created: no request changes them afterwards.
\<close>

theorem due_date_fourteen_local_days:
  "(\<forall>b \<in> set (heap (run tza evs)).
      due_date b = UTC_time tza (LocalTime tza (borrowed_at b) + 14 * msPerDay)
      \<and> (due_date b - borrowed_at b = 14 * (24 * 3600000)
          \<longleftrightarrow> tza (LocalTime tza (borrowed_at b) + 14 * msPerDay) False
              = tza (borrowed_at b) True))
   \<and> (\<forall>a < length (heap (run tza evs)).
        due_date (heap (handle tza now rq (run tza evs)) ! a) = due_date (heap (run tza evs) ! a)
      \<and> borrowed_at (heap (handle tza now rq (run tza evs)) ! a)
          = borrowed_at (heap (run tza evs) ! a))"
proof -
  have "due_date b = UTC_time tza (LocalTime tza (borrowed_at b) + 14 * msPerDay)
      \<and> (due_date b - borrowed_at b = 14 * (24 * 3600000)
          \<longleftrightarrow> tza (LocalTime tza (borrowed_at b) + 14 * msPerDay) False
              = tza (borrowed_at b) True)"
    if "b \<in> set (heap (run tza evs))" for b
  proof -
    have d: "due_date b = dueDate tza (borrowed_at b)"
      using dates_run that by blast
    show ?thesis
      using dueDate_difference[of tza "borrowed_at b"] unfolding d[symmetric]
      by (simp add: d dueDate_def)
  qed
  then show ?thesis
    using dates_kept by blast
qed

theorem due_date_fourteen_local_days_witness:
  "loan 5 1209600005 \<in> set (heap (run utc_zone (borrow_events 5)))
   \<and> due_date (loan 5 1209600005) - borrowed_at (loan 5 1209600005) = 14 * (24 * 3600000)
   \<and> utc_zone (LocalTime utc_zone (borrowed_at (loan 5 1209600005)) + 14 * msPerDay) False
       = utc_zone (borrowed_at (loan 5 1209600005)) True
   \<and> (0::nat) < length (heap (run utc_zone (borrow_events 5)))
   \<and> due_date (heap (handle utc_zone 7 (Return 1 101) (run utc_zone (borrow_events 5))) ! 0)
       = 1209600005"
  using due_date_fourteen_local_days[of utc_zone "borrow_events 5" 7 "Return 1 101"]
  by (simp add: run_borrow dueDate_utc borrowed_state_def loan_def)

text \<open>
  In New York, a book borrowed on 1 March 2024 at 12:00 UTC is due on 15 March
  at 11:00 UTC: daylight saving time began in between, and the difference is 14
  days less one hour.
\<close>

theorem due_date_counterexample:
  "heap (run new_york_2024 (borrow_events 1709294400000))
     = [loan 1709294400000 1710500400000]
   \<and> due_date (loan 1709294400000 1710500400000) - borrowed_at (loan 1709294400000 1710500400000)
     = 14 * (24 * 3600000) - 3600000"
  by (simp add: run_borrow dueDate_ny_spring borrowed_state_def loan_def)

subsection \<open>C6: the overdue report\<close>

text \<open>
  Claim C6, amended. For every state and every current time, the overdue report
  has one entry for each record of the ledger that is active and whose
  \<open>due_date\<close> is strictly earlier than now, and no other entry; a record whose
  \<open>due_date\<close> equals now is not reported. \<open>days_overdue\<close> is the number of
  whole days in the time elapsed since \<open>due_date\<close>: it is 0 for less than one
  day, and 1 for a record queried 15 times 24 hours after it was borrowed
  whenever its \<open>due_date\<close> is 14 times 24 hours after \<open>borrowed_at\<close>, which
  in a reachable state holds when the offset of the local zone at the due
  wall-clock time equals its offset at the time of borrowing.
\<close>

theorem overdue_report:
  "set (overdue now s) =
     overdue_entry now ` {b \<in> set (ledger_values s). status b = Active \<and> due_date b < now}
   \<and> map ov_transaction_id (overdue now s) =
     map transaction_id (filter (\<lambda>b. status b = Active \<and> due_date b < now) (ledger_values s))
   \<and> (\<forall>v \<in> set (overdue now s).
        ov_due_date v < now
        \<and> days_overdue v * msPerDay \<le> now - ov_due_date v
        \<and> now - ov_due_date v < (days_overdue v + 1) * msPerDay
        \<and> (now - ov_due_date v < msPerDay \<longrightarrow> days_overdue v = 0)
        \<and> (ov_due_date v = ov_borrowed_at v + 14 * msPerDay
             \<and> now = ov_borrowed_at v + 15 * msPerDay \<longrightarrow> days_overdue v = 1))
   \<and> (\<forall>b \<in> set (ledger_values (run tza evs)).
        status b = Active
        \<and> tza (LocalTime tza (borrowed_at b) + 14 * msPerDay) False = tza (borrowed_at b) True
        \<longrightarrow> overdue_entry (borrowed_at b + 15 * msPerDay) b
              \<in> set (overdue (borrowed_at b + 15 * msPerDay) (run tza evs))
          \<and> days_overdue (overdue_entry (borrowed_at b + 15 * msPerDay) b) = 1)"
proof -
  have per: "ov_due_date v < now
        \<and> days_overdue v * msPerDay \<le> now - ov_due_date v
        \<and> now - ov_due_date v < (days_overdue v + 1) * msPerDay
        \<and> (now - ov_due_date v < msPerDay \<longrightarrow> days_overdue v = 0)
        \<and> (ov_due_date v = ov_borrowed_at v + 14 * msPerDay
             \<and> now = ov_borrowed_at v + 15 * msPerDay \<longrightarrow> days_overdue v = 1)"
    if "v \<in> set (overdue now s)" for v
  proof -
    from that obtain b where b: "due_date b < now" and v: "v = overdue_entry now b"
      by (auto simp: overdue_set)
    have d: "days_overdue v = (now - ov_due_date v) div msPerDay"
      and pos: "ov_due_date v < now"
      using b by (simp_all add: v overdue_entry_days overdue_entry_fields)
    note bounds = days_bounds[OF d]
    have zero: "days_overdue v = 0" if "now - ov_due_date v < msPerDay"
      using d pos that by (rule days_zero)
    have one: "days_overdue v = 1"
      if "ov_due_date v = ov_borrowed_at v + 14 * msPerDay" "now = ov_borrowed_at v + 15 * msPerDay"
      using d that by (rule days_one)
    show ?thesis
      using pos bounds zero one by (intro conjI impI) simp_all
  qed
  have late: "overdue_entry (borrowed_at b + 15 * msPerDay) b
              \<in> set (overdue (borrowed_at b + 15 * msPerDay) (run tza evs))
          \<and> days_overdue (overdue_entry (borrowed_at b + 15 * msPerDay) b) = 1"
    if "b \<in> set (ledger_values (run tza evs))" "status b = Active"
      "tza (LocalTime tza (borrowed_at b) + 14 * msPerDay) False = tza (borrowed_at b) True"
    for b
  proof -
    have "b \<in> set (heap (run tza evs))" using that(1) by (simp add: run_ledger_values)
    then have "due_date b = dueDate tza (borrowed_at b)" using dates_run by blast
    then have due: "due_date b = borrowed_at b + 14 * msPerDay"
      using that(3) by (simp add: dueDate_def UTC_time_def LocalTime_def)
    then have "due_date b < borrowed_at b + 15 * msPerDay" using msPerDay_pos by simp
    then have "overdue_entry (borrowed_at b + 15 * msPerDay) b
              \<in> set (overdue (borrowed_at b + 15 * msPerDay) (run tza evs))"
      using that(1,2) by (auto simp: overdue_set)
    moreover have "days_overdue (overdue_entry (borrowed_at b + 15 * msPerDay) b) = 1"
      using overdue_entry_days due by (rule days_one) simp
    ultimately show ?thesis by simp
  qed
  have c1: "set (overdue now s) =
     overdue_entry now ` {b \<in> set (ledger_values s). status b = Active \<and> due_date b < now}"
    by (rule overdue_set)
  have c2: "map ov_transaction_id (overdue now s) =
     map transaction_id (filter (\<lambda>b. status b = Active \<and> due_date b < now) (ledger_values s))"
    by (simp add: overdue_def overdue_entry_def comp_def)
  have c3: "\<forall>v \<in> set (overdue now s).
        ov_due_date v < now
        \<and> days_overdue v * msPerDay \<le> now - ov_due_date v
        \<and> now - ov_due_date v < (days_overdue v + 1) * msPerDay
        \<and> (now - ov_due_date v < msPerDay \<longrightarrow> days_overdue v = 0)
        \<and> (ov_due_date v = ov_borrowed_at v + 14 * msPerDay
             \<and> now = ov_borrowed_at v + 15 * msPerDay \<longrightarrow> days_overdue v = 1)"
    by (intro ballI) (rule per)
  have c4: "\<forall>b \<in> set (ledger_values (run tza evs)).
        status b = Active
        \<and> tza (LocalTime tza (borrowed_at b) + 14 * msPerDay) False = tza (borrowed_at b) True
        \<longrightarrow> overdue_entry (borrowed_at b + 15 * msPerDay) b
              \<in> set (overdue (borrowed_at b + 15 * msPerDay) (run tza evs))
          \<and> days_overdue (overdue_entry (borrowed_at b + 15 * msPerDay) b) = 1"
    by (intro ballI impI, elim conjE) (rule late)
  show ?thesis
    by (rule conjI[OF c1 conjI[OF c2 conjI[OF c3 c4]]])
qed

theorem overdue_report_witness:
  "loan 5 1209600005 \<in> set (ledger_values (run utc_zone (borrow_events 5)))
   \<and> status (loan 5 1209600005) = Active
   \<and> utc_zone (LocalTime utc_zone (borrowed_at (loan 5 1209600005)) + 14 * msPerDay) False
       = utc_zone (borrowed_at (loan 5 1209600005)) True
   \<and> overdue_entry (borrowed_at (loan 5 1209600005) + 15 * msPerDay) (loan 5 1209600005)
       \<in> set (overdue (borrowed_at (loan 5 1209600005) + 15 * msPerDay)
                (run utc_zone (borrow_events 5)))
   \<and> days_overdue (overdue_entry (borrowed_at (loan 5 1209600005) + 15 * msPerDay)
        (loan 5 1209600005)) = 1
   \<and> ov_due_date (overdue_entry 1209600006 (loan 5 1209600005)) < 1209600006
   \<and> days_overdue (overdue_entry 1209600006 (loan 5 1209600005)) = 0
   \<and> overdue 1209600005 (run utc_zone (borrow_events 5)) = []"
proof -
  let ?s = "run utc_zone (borrow_events 5)"
  let ?b = "loan 5 1209600005"
  have h1: "?b \<in> set (ledger_values ?s)"
    by (simp add: run_borrow dueDate_utc ledger_values_borrowed)
  have h2: "status ?b = Active" by (simp add: loan_fields)
  have h3: "utc_zone (LocalTime utc_zone (borrowed_at ?b) + 14 * msPerDay) False
       = utc_zone (borrowed_at ?b) True"
    by (simp add: utc_zone_def)
  have all: "\<forall>b \<in> set (ledger_values ?s).
        status b = Active
        \<and> utc_zone (LocalTime utc_zone (borrowed_at b) + 14 * msPerDay) False
            = utc_zone (borrowed_at b) True
        \<longrightarrow> overdue_entry (borrowed_at b + 15 * msPerDay) b
              \<in> set (overdue (borrowed_at b + 15 * msPerDay) ?s)
          \<and> days_overdue (overdue_entry (borrowed_at b + 15 * msPerDay) b) = 1"
    by (rule overdue_report[where tza = utc_zone and evs = "borrow_events 5",
          THEN conjunct2, THEN conjunct2, THEN conjunct2])
  have late: "overdue_entry (borrowed_at ?b + 15 * msPerDay) ?b
              \<in> set (overdue (borrowed_at ?b + 15 * msPerDay) ?s)
          \<and> days_overdue (overdue_entry (borrowed_at ?b + 15 * msPerDay) ?b) = 1"
    using bspec[OF all h1] h2 h3 by simp
  have e: "overdue 1209600006 ?s = [overdue_entry 1209600006 ?b]"
    by (simp add: run_borrow dueDate_utc overdue_def ledger_values_borrowed loan_fields)
  have per: "\<forall>v \<in> set (overdue 1209600006 ?s).
        ov_due_date v < 1209600006
        \<and> days_overdue v * msPerDay \<le> 1209600006 - ov_due_date v
        \<and> 1209600006 - ov_due_date v < (days_overdue v + 1) * msPerDay
        \<and> (1209600006 - ov_due_date v < msPerDay \<longrightarrow> days_overdue v = 0)
        \<and> (ov_due_date v = ov_borrowed_at v + 14 * msPerDay
             \<and> 1209600006 = ov_borrowed_at v + 15 * msPerDay \<longrightarrow> days_overdue v = 1)"
    by (rule overdue_report[where now = 1209600006 and s = ?s,
          THEN conjunct2, THEN conjunct2, THEN conjunct1])
  have mem: "overdue_entry 1209600006 ?b \<in> set (overdue 1209600006 ?s)"
    by (simp add: e)
  have d: "ov_due_date (overdue_entry 1209600006 ?b) = 1209600005"
    by (simp add: overdue_entry_def loan_fields)
  have early: "ov_due_date (overdue_entry 1209600006 ?b) < 1209600006
        \<and> days_overdue (overdue_entry 1209600006 ?b) = 0"
    using bspec[OF per mem] by (simp add: d msPerDay_def)
  have none: "overdue 1209600005 ?s = []"
    by (simp add: run_borrow dueDate_utc overdue_def ledger_values_borrowed loan_fields)
  show ?thesis using h1 h2 h3 late early none by simp
qed

text \<open>
  In New York, a book borrowed on 25 October 2024 at 12:00 UTC is due on
  8 November at 13:00 UTC, since daylight saving time ended in between. Queried
  15 days after it was borrowed, it is 23 hours overdue and is reported with
  \<open>days_overdue = 0\<close>.
\<close>

theorem overdue_counterexample:
  "overdue (1729857600000 + 15 * msPerDay) (run new_york_2024 (borrow_events 1729857600000))
     = [\<lparr>ov_transaction_id = 1, ov_member_id = 1, ov_member_name = ''Ann'', ov_book_id = 101,
         ov_book_title = ''Emma'', ov_borrowed_at = 1729857600000,
         ov_due_date = 1731070800000, days_overdue = 0\<rparr>]"
proof -
  have n: "1729857600000 + 15 * msPerDay = 1731153600000" by (simp add: msPerDay_def)
  have "overdue 1731153600000 (borrowed_state 1729857600000 1731070800000)
      = [overdue_entry 1731153600000 (loan 1729857600000 1731070800000)]"
    by (simp add: overdue_def ledger_values_borrowed loan_fields)
  also have "\<dots> = [\<lparr>ov_transaction_id = 1, ov_member_id = 1, ov_member_name = ''Ann'',
         ov_book_id = 101, ov_book_title = ''Emma'', ov_borrowed_at = 1729857600000,
         ov_due_date = 1731070800000, days_overdue = 0\<rparr>]"
    by (simp add: overdue_entry_def loan_def)
  finally show ?thesis
    by (simp add: n run_borrow dueDate_ny_autumn)
qed

subsection \<open>C7: a rejected request changes nothing\<close>

text \<open>
  Claim C7. A borrow or return request that fails with a \<open>NotFound\<close>,
  \<open>Conflict\<close> or \<open>Invalid\<close> error leaves the members, the books, the ledger and
  the store as they were. A borrow request has no other failure; a return
  request has no other failure in a state the server can reach.
\<close>

theorem failure_leaves_state:
  "(fst (borrow tza now mid bid s) = Inl e \<longrightarrow>
      snd (borrow tza now mid bid s) = s
      \<and> e \<in> {NotFound_member, NotFound_book, Conflict_already_borrowed, Conflict_unavailable})
   \<and> (fst (return_book now mid bid s) = Inl e \<and> e \<noteq> TypeError \<longrightarrow>
      snd (return_book now mid bid s) = s
      \<and> e \<in> {NotFound_member, Invalid_no_active_borrowing})
   \<and> (fst (return_book now mid bid (run tza evs)) = Inl e \<longrightarrow> e \<noteq> TypeError)"
proof -
  have "snd (borrow tza now mid bid s) = s
      \<and> e \<in> {NotFound_member, NotFound_book, Conflict_already_borrowed, Conflict_unavailable}"
    if "fst (borrow tza now mid bid s) = Inl e"
    using that by (auto simp: borrow_def Let_def split: if_splits)
  moreover have "snd (return_book now mid bid s) = s
      \<and> e \<in> {NotFound_member, Invalid_no_active_borrowing}"
    if "fst (return_book now mid bid s) = Inl e" "e \<noteq> TypeError"
    using that by (auto simp: return_book_def Let_def split: option.splits)
  moreover have "e \<noteq> TypeError"
    if "fst (return_book now mid bid (run tza evs)) = Inl e"
    using inv_run[of tza evs]
    by (cases rule: return_cases[where now = now and mid = mid and bid = bid])
      (use that in auto)
  ultimately show ?thesis by blast
qed

theorem failure_leaves_state_witness:
  "fst (borrow utc_zone 5 2 101 (second_member_state 0 9)) = Inl Conflict_unavailable
   \<and> snd (borrow utc_zone 5 2 101 (second_member_state 0 9)) = second_member_state 0 9
   \<and> fst (return_book 5 2 101 (second_member_state 0 9)) = Inl Invalid_no_active_borrowing
   \<and> snd (return_book 5 2 101 (second_member_state 0 9)) = second_member_state 0 9
   \<and> fst (return_book 5 3 101 (run utc_zone (second_member_events 0))) = Inl NotFound_member"
  using failure_leaves_state[where tza = utc_zone and now = 5 and mid = 2 and bid = 101
      and s = "second_member_state 0 9" and e = Conflict_unavailable]
    failure_leaves_state[where tza = utc_zone and now = 5 and mid = 2 and bid = 101
      and s = "second_member_state 0 9" and e = Invalid_no_active_borrowing]
    failure_leaves_state[where tza = utc_zone and now = 5 and mid = 3 and bid = 101
      and evs = "second_member_events 0" and e = NotFound_member]
  by (simp add: run_second_member)
    (simp add: borrow_def return_book_def second_member_state_def map_has_def map_get_def
      map_values_def active_match_def loan_def Let_def ann_def bob_def emma_def)

subsection \<open>C8: transaction ids are unique and increasing\<close>

text \<open>
  Claim C8. The transaction ids handed out by the successful borrow requests of
  any run are strictly increasing in the order of the requests, hence distinct;
  they are the keys of the ledger and the ids of the stored records.
\<close>

theorem transaction_ids_increase:
  "sorted_wrt (<) (assigned_ids tza init_state evs)
   \<and> distinct (assigned_ids tza init_state evs)
   \<and> assigned_ids tza init_state evs = map fst (borrowings (run tza evs))
   \<and> assigned_ids tza init_state evs = map transaction_id (heap (run tza evs))"
proof -
  let ?s = "run tza evs"
  let ?f = "\<lambda>i. int i + 1"
  have i: "server_inv ?s" by (rule inv_run)
  have ids: "assigned_ids tza init_state evs = map ?f [0..<length (heap ?s)]"
    using assigned_ids_from[OF inv_init, of tza evs] by (simp add: run_def init_state_def)
  have "sorted_wrt (\<lambda>x y. ?f x < ?f y) [0..<length (heap ?s)]"
    by (rule sorted_wrt_mono_rel[OF _ sorted_wrt_upt]) simp
  then have "sorted_wrt (<) (map ?f [0..<length (heap ?s)])"
    by (simp only: sorted_wrt_map)
  moreover have "distinct (map ?f [0..<length (heap ?s)])"
    by (simp add: distinct_map inj_on_def)
  moreover have "map fst (borrowings ?s) = map ?f [0..<length (heap ?s)]"
    using i by (simp add: server_inv_def ledger_ok_def comp_def)
  moreover have "map transaction_id (heap ?s) = map ?f [0..<length (heap ?s)]"
    using i by (simp add: server_inv_def ledger_ok_def)
  ultimately show ?thesis by (simp add: ids)
qed

theorem transaction_ids_increase_witness:
  "assigned_ids utc_zone init_state reborrow_events = [1, 2]
   \<and> map fst (borrowings (run utc_zone reborrow_events)) = [1, 2]"
  using transaction_ids_increase[of utc_zone reborrow_events]
  by (simp add: run_reborrow)

subsection \<open>C9: the history entry is the ledger record\<close>

text \<open>
  Claim C9. The entry appended to a member's history by a borrow request is the
  ledger record itself (the same address of the store), not a copy. After a
  successful borrow request, any further requests other than a return of the
  same member and book, and then a successful return of that member and book,
  the last entry of the member's history is the address under which the ledger
  holds the record; the history shows it as active with no \<open>returned_at\<close>
  before the return, and as returned with the time of the return afterwards.
\<close>

theorem history_shares_record:
  assumes "borrow tza now1 mid bid (run tza evs) = (Inr b, s1)"
    and "\<forall>ev \<in> set evs'. snd ev \<noteq> Return mid bid"
    and "return_book now2 mid bid (run_from tza s1 evs') = (Inr b', s2)"
  shows "\<exists>m1 m2 a.
      map_get (members (run_from tza s1 evs')) mid = Some m1
    \<and> map_get (members s2) mid = Some m2
    \<and> history m1 \<noteq> [] \<and> last (history m1) = a \<and> history m2 = history m1
    \<and> map_get (borrowings s2) (transaction_id b) = Some a
    \<and> heap (run_from tza s1 evs') ! a = b \<and> heap s2 ! a = b'
    \<and> b' = b\<lparr>status := Returned, returned_at := Some now2\<rparr>
    \<and> get_history mid (run_from tza s1 evs') =
         Inr (mid, name m1, map (\<lambda>a. history_entry (heap (run_from tza s1 evs') ! a)) (history m1))
    \<and> last (map (\<lambda>a. history_entry (heap (run_from tza s1 evs') ! a)) (history m1)) =
         \<lparr>hv_transaction_id = transaction_id b, hv_book_id = bid, hv_book_title = book_title b,
          hv_borrowed_at = now1, hv_returned_at = None, hv_status = Active\<rparr>
    \<and> get_history mid s2 = Inr (mid, name m2, map (\<lambda>a. history_entry (heap s2 ! a)) (history m2))
    \<and> last (map (\<lambda>a. history_entry (heap s2 ! a)) (history m2)) =
         \<lparr>hv_transaction_id = transaction_id b, hv_book_id = bid, hv_book_title = book_title b,
          hv_borrowed_at = now1, hv_returned_at = Some now2, hv_status = Returned\<rparr>"
proof -
  let ?s = "run tza evs"
  let ?n = "length (heap ?s)"
  let ?t = "run_from tza s1 evs'"
  have i: "server_inv ?s" by (rule inv_run)
  then have lo: "ledger_ok ?s" by (simp add: server_inv_def)
  from assms(1) have r: "fst (borrow tza now1 mid bid ?s) = Inr b"
    and s1: "snd (borrow tza now1 mid bid ?s) = s1" by simp_all
  from r obtain m bk where
    m: "map_get (members ?s) mid = Some m" and
    b: "b = \<lparr>transaction_id = int (length (borrowings ?s)) + 1, member_id = mid,
          member_name = name m, book_id = bid, book_title = title bk, borrowed_at = now1,
          due_date = dueDate tza now1, status = Active, returned_at = None\<rparr>" and
    upd: "snd (borrow tza now1 mid bid ?s) =
       ?s\<lparr>borrowings := map_set (int (length (borrowings ?s)) + 1) ?n (borrowings ?s),
         heap := heap ?s @ [b],
         members := map_set mid (m\<lparr>has_borrowed := True, history := history m @ [?n]\<rparr>) (members ?s),
         books := map_set bid (bk\<lparr>is_available := False\<rparr>) (books ?s)\<rparr>"
    by (rule borrow_Inr)
  have s1_eq: "s1 =
       ?s\<lparr>borrowings := map_set (int (length (borrowings ?s)) + 1) ?n (borrowings ?s),
         heap := heap ?s @ [b],
         members := map_set mid (m\<lparr>has_borrowed := True, history := history m @ [?n]\<rparr>) (members ?s),
         books := map_set bid (bk\<lparr>is_available := False\<rparr>) (books ?s)\<rparr>"
    using s1 upd by simp
  have tid: "transaction_id b = int ?n + 1"
    by (simp add: b ledger_length[OF lo])
  have bf: "member_id b = mid" "book_id b = bid" "status b = Active"
    "book_title b = title bk" "borrowed_at b = now1" "returned_at b = None"
    by (simp_all add: b)
  have i1: "server_inv s1" using inv_borrow[OF i, of tza now1 mid bid] s1 by simp
  have "on_loan mid (history m @ [?n]) ?n b s1"
    using i1 bf by (simp add: on_loan_def) (simp add: s1_eq map_get_map_set)
  then have ol: "on_loan mid (history m @ [?n]) ?n b ?t"
    using assms(2) bf(2) by (intro on_loan_run_from) simp_all
  then obtain m1 where it: "server_inv ?t"
    and m1: "map_get (members ?t) mid = Some m1" "has_borrowed m1" "history m1 = history m @ [?n]"
    and n: "?n < length (heap ?t)" "heap ?t ! ?n = b"
    by (auto simp: on_loan_def)
  from it have lt: "ledger_ok ?t" by (simp add: server_inv_def)
  have led: "map_get (borrowings ?t) (transaction_id b) = Some ?n"
    unfolding tid using lt n(1) by (rule ledger_lookup)
  from it show ?thesis
  proof (cases rule: return_cases[where now = now2 and mid = mid and bid = bid])
    case no_member
    then show ?thesis using assms(3) by simp
  next
    case (no_borrowing m')
    then show ?thesis using assms(3) by simp
  next
    case (returned m' a bk')
    from returned(6) have f: "member_id (heap ?t ! a) = mid" "status (heap ?t ! a) = Active"
      by (simp_all add: active_match_def)
    have a: "a = ?n"
      using unique_active[OF it returned(5) n(1), of mid] f n(2) bf by simp
    from returned(1) m1 have m': "m' = m1" by simp
    from returned(8) assms(3) have b': "b' = (heap ?t ! a)\<lparr>status := Returned, returned_at := Some now2\<rparr>"
      and s2: "s2 = ?t\<lparr>heap := (heap ?t)[a := (heap ?t ! a)\<lparr>status := Returned, returned_at := Some now2\<rparr>],
           members := map_set mid (m'\<lparr>has_borrowed := False\<rparr>) (members ?t),
           books := map_set bid (bk'\<lparr>is_available := True\<rparr>) (books ?t)\<rparr>"
      by simp_all
    have b'_eq: "b' = b\<lparr>status := Returned, returned_at := Some now2\<rparr>"
      using b' n(2) a by simp
    have m2: "map_get (members s2) mid = Some (m1\<lparr>has_borrowed := False\<rparr>)"
      by (simp add: s2 map_get_map_set m')
    have led2: "map_get (borrowings s2) (transaction_id b) = Some ?n"
      using led by (simp add: s2)
    have h2: "heap s2 ! ?n = b'"
      using n(1) a by (simp add: s2 b')
    have g1: "get_history mid ?t = Inr (mid, name m1,
        map (\<lambda>a. history_entry (heap ?t ! a)) (history m1))"
      using m1(1) by (simp add: get_history_def)
    have g2: "get_history mid s2 = Inr (mid, name (m1\<lparr>has_borrowed := False\<rparr>),
        map (\<lambda>a. history_entry (heap s2 ! a)) (history (m1\<lparr>has_borrowed := False\<rparr>)))"
      using m2 by (simp add: get_history_def)
    have e1: "history_entry (heap ?t ! ?n) =
         \<lparr>hv_transaction_id = transaction_id b, hv_book_id = bid, hv_book_title = book_title b,
          hv_borrowed_at = now1, hv_returned_at = None, hv_status = Active\<rparr>"
      unfolding n(2) by (simp add: history_entry_def bf)
    have e2: "history_entry (heap s2 ! ?n) =
         \<lparr>hv_transaction_id = transaction_id b, hv_book_id = bid, hv_book_title = book_title b,
          hv_borrowed_at = now1, hv_returned_at = Some now2, hv_status = Returned\<rparr>"
      unfolding h2 b'_eq by (simp add: history_entry_def bf)
    have hist: "history m1 \<noteq> []" "last (history m1) = ?n"
      "history (m1\<lparr>has_borrowed := False\<rparr>) = history m1"
      by (simp_all add: m1(3))
    have l1: "last (map (\<lambda>a. history_entry (heap ?t ! a)) (history m1)) =
         \<lparr>hv_transaction_id = transaction_id b, hv_book_id = bid, hv_book_title = book_title b,
          hv_borrowed_at = now1, hv_returned_at = None, hv_status = Active\<rparr>"
      using hist(1,2) e1 by (simp add: last_map)
    have l2: "last (map (\<lambda>a. history_entry (heap s2 ! a)) (history (m1\<lparr>has_borrowed := False\<rparr>))) =
         \<lparr>hv_transaction_id = transaction_id b, hv_book_id = bid, hv_book_title = book_title b,
          hv_borrowed_at = now1, hv_returned_at = Some now2, hv_status = Returned\<rparr>"
      using hist e2 by (simp add: last_map)
    show ?thesis
      using m1(1) m2 hist led2 n(2) h2 b'_eq g1 g2 l1 l2 by blast
  qed
qed

theorem history_shares_record_witness:
  "borrow utc_zone 5 1 101 (run utc_zone setup_events)
     = (Inr (loan 5 1209600005), borrowed_state 5 1209600005)
   \<and> Return 1 101 \<notin> snd ` set (bob_joins 6)
   \<and> return_book 7 1 101 (run_from utc_zone (borrowed_state 5 1209600005) (bob_joins 6))
     = (Inr ((loan 5 1209600005)\<lparr>status := Returned, returned_at := Some 7\<rparr>),
        (returned_state 5 1209600005 7)
          \<lparr>members := members (returned_state 5 1209600005 7) @ [(2, bob)]\<rparr>)
   \<and> get_history 1 (run_from utc_zone (borrowed_state 5 1209600005) (bob_joins 6)) =
       Inr (1, ''Ann'', [\<lparr>hv_transaction_id = 1, hv_book_id = 101, hv_book_title = ''Emma'',
          hv_borrowed_at = 5, hv_returned_at = None, hv_status = Active\<rparr>])
   \<and> get_history 1 ((returned_state 5 1209600005 7)
          \<lparr>members := members (returned_state 5 1209600005 7) @ [(2, bob)]\<rparr>) =
       Inr (1, ''Ann'', [\<lparr>hv_transaction_id = 1, hv_book_id = 101, hv_book_title = ''Emma'',
          hv_borrowed_at = 5, hv_returned_at = Some 7, hv_status = Returned\<rparr>])"
proof -
  have b: "borrow utc_zone 5 1 101 (run utc_zone setup_events)
     = (Inr (loan 5 1209600005), borrowed_state 5 1209600005)"
    by (simp add: run_setup borrow_setup dueDate_utc)
  have e: "\<forall>ev \<in> set (bob_joins 6). snd ev \<noteq> Return 1 101"
    by (simp add: bob_joins_def)
  have r: "return_book 7 1 101 (run_from utc_zone (borrowed_state 5 1209600005) (bob_joins 6))
     = (Inr ((loan 5 1209600005)\<lparr>status := Returned, returned_at := Some 7\<rparr>),
        (returned_state 5 1209600005 7)
          \<lparr>members := members (returned_state 5 1209600005 7) @ [(2, bob)]\<rparr>)"
    unfolding run_from_second_member by (rule return_second_member)
  have n: "Return 1 101 \<notin> snd ` set (bob_joins 6)"
    by (simp add: bob_joins_def)
  show ?thesis
    using history_shares_record[OF b e r] b r n
    by (simp add: run_from_second_member)
      (simp add: get_history_def second_member_state_def returned_state_def map_get_def
        history_entry_def loan_def ann_def)
qed

subsection \<open>C10: a successful return finds its book\<close>

text \<open>
  Claim C10. When a return request has found an active borrowing of the member
  and the book, \<^verbatim>\<open>books.get(book_id)\<close> is an existing book in every reachable
  state, so the request answers with the record and does not throw: deleting
  that book is rejected while the borrowing is active.
\<close>

theorem return_finds_book:
  assumes "map_get (members (run tza evs)) mid = Some m"
    and "find (\<lambda>a. active_match mid bid (heap (run tza evs) ! a))
           (map_values (borrowings (run tza evs))) = Some a"
  shows "\<exists>bk. map_get (books (run tza evs)) bid = Some bk
    \<and> fst (return_book now mid bid (run tza evs))
        = Inr ((heap (run tza evs) ! a)\<lparr>status := Returned, returned_at := Some now\<rparr>)
    \<and> delete_book bid (run tza evs) = Inl BookIsBorrowed"
proof -
  let ?s = "run tza evs"
  have i: "server_inv ?s" by (rule inv_run)
  then have lo: "ledger_ok ?s" by (simp add: server_inv_def)
  from find_ledger[OF lo assms(2)]
  have a: "a < length (heap ?s)" and ma: "active_match mid bid (heap ?s ! a)" by simp_all
  from ma have bb: "book_id (heap ?s ! a) = bid" and st: "status (heap ?s ! a) = Active"
    by (simp_all add: active_match_def)
  obtain bk where bk: "map_get (books ?s) bid = Some bk"
    using active_book_exists[OF i a bb st] by blast
  have r: "fst (return_book now mid bid ?s)
        = Inr ((heap ?s ! a)\<lparr>status := Returned, returned_at := Some now\<rparr>)"
    using assms bk by (simp add: return_book_def Let_def)
  have "list_ex (\<lambda>b. book_id b = bid \<and> status b = Active) (ledger_values ?s)"
    using a bb st by (auto simp: ledger_values_heap[OF lo] list_ex_iff)
  then have "delete_book bid ?s = Inl BookIsBorrowed"
    using bk by (simp add: delete_book_def map_has_def)
  with bk r show ?thesis by blast
qed

theorem return_finds_book_witness:
  "map_get (members (run utc_zone (borrow_events 5))) 1
     = Some (ann\<lparr>has_borrowed := True, history := [0]\<rparr>)
   \<and> find (\<lambda>a. active_match 1 101 (heap (run utc_zone (borrow_events 5)) ! a))
        (map_values (borrowings (run utc_zone (borrow_events 5)))) = Some 0
   \<and> map_get (books (run utc_zone (borrow_events 5))) 101 = Some (emma\<lparr>is_available := False\<rparr>)
   \<and> fst (return_book 7 1 101 (run utc_zone (borrow_events 5)))
       = Inr ((loan 5 1209600005)\<lparr>status := Returned, returned_at := Some 7\<rparr>)
   \<and> delete_book 101 (run utc_zone (borrow_events 5)) = Inl BookIsBorrowed"
proof -
  have m: "map_get (members (run utc_zone (borrow_events 5))) 1
     = Some (ann\<lparr>has_borrowed := True, history := [0]\<rparr>)"
    by (simp add: run_borrow borrowed_state_def map_get_def)
  have f: "find (\<lambda>a. active_match 1 101 (heap (run utc_zone (borrow_events 5)) ! a))
        (map_values (borrowings (run utc_zone (borrow_events 5)))) = Some 0"
    by (simp add: run_borrow borrowed_state_def map_values_def active_match_def loan_def)
  show ?thesis
    using return_finds_book[OF m f, of 7] m f
    by (simp add: run_borrow dueDate_utc)
      (simp add: borrowed_state_def map_get_def)
qed

end
